theory Spec2Isabelle
  imports Main "HOL-Library.Word"
begin

unbundle bit_operations_syntax

chapter \<open>Wire codec and envelope framer of the Cursor agent scripts\<close>

section \<open>Data model\<close>

text \<open>
  A \<^verbatim>\<open>Uint8Array\<close> is a list of 8-bit words. Writing a number into one keeps its
  low eight bits, which \<open>word_of_nat\<close> does.
\<close>

type_synonym byte = "8 word"

section \<open>Varints\<close>

text \<open>
  \<^verbatim>\<open>encodeVarint(value: number | bigint)\<close>: the value is turned into a BigInt and
  emitted seven bits at a time, low group first, every byte but the last carrying the
  continuation bit \<open>0x80\<close>. Every call site passes a length, a mode or \<open>0n\<close>, so the
  argument is a natural number here; BigInts are unbounded, and so is \<open>nat\<close>.
\<close>

function encodeVarint :: "nat \<Rightarrow> byte list" where
  "encodeVarint v =
     (if v > 127 then word_of_nat ((v AND 0x7f) OR 0x80) # encodeVarint (drop_bit 7 v)
      else [word_of_nat v])"
  by pat_completeness auto
termination
  by (relation "measure id") (auto simp: drop_bit_eq_div)

declare encodeVarint.simps [simp del]

text \<open>
  \<^verbatim>\<open>decodeVarint(data, offset)\<close> of the interaction-query script. The loop variables
  \<open>value\<close>, \<open>shift\<close> and \<open>bytesRead\<close> are the arguments of the recursion; \<open>value\<close> and
  \<open>shift\<close> are BigInts. The result is the pair \<open>(value, bytesRead)\<close>. The test
  \<^verbatim>\<open>byte === undefined\<close> cannot fire, since the index is below \<open>data.length\<close>.
\<close>

function decodeVarint_loop :: "byte list \<Rightarrow> nat \<Rightarrow> nat \<Rightarrow> nat \<Rightarrow> nat \<Rightarrow> nat \<times> nat" where
  "decodeVarint_loop data offset val shift bytesRead =
     (if offset + bytesRead < length data then
        (let b = data ! (offset + bytesRead);
             val' = val OR push_bit shift (unat (b AND 0x7f));
             bytesRead' = bytesRead + 1
         in if b AND 0x80 = 0 then (val', bytesRead')
            else decodeVarint_loop data offset val' (shift + 7) bytesRead')
      else (val, bytesRead))"
  by pat_completeness auto
termination
  by (relation "measure (\<lambda>(data, offset, val, shift, bytesRead). length data - (offset + bytesRead))")
     auto

declare decodeVarint_loop.simps [simp del]

definition decodeVarint :: "byte list \<Rightarrow> nat \<Rightarrow> nat \<times> nat" where
  "decodeVarint data offset = decodeVarint_loop data offset 0 0 0"

text \<open>
  \<^verbatim>\<open>decodeVarint\<close> of the tool-encoding script works on JavaScript numbers:
  \<^verbatim>\<open>value |= (byte & 0x7f) << shift\<close> is 32-bit arithmetic, the shift count is taken
  modulo 32, and the result is read as a signed 32-bit integer.
\<close>

function decodeVarint32_loop :: "byte list \<Rightarrow> nat \<Rightarrow> 32 word \<Rightarrow> nat \<Rightarrow> nat \<Rightarrow> int \<times> nat" where
  "decodeVarint32_loop data offset val shift bytesRead =
     (if offset + bytesRead < length data then
        (let b = data ! (offset + bytesRead);
             val' = val OR push_bit (shift mod 32) (ucast (b AND 0x7f));
             bytesRead' = bytesRead + 1
         in if b AND 0x80 = 0 then (sint val', bytesRead')
            else decodeVarint32_loop data offset val' (shift + 7) bytesRead')
      else (sint val, bytesRead))"
  by pat_completeness auto
termination
  by (relation "measure (\<lambda>(data, offset, val, shift, bytesRead). length data - (offset + bytesRead))")
     auto

declare decodeVarint32_loop.simps [simp del]

definition decodeVarint32 :: "byte list \<Rightarrow> nat \<Rightarrow> int \<times> nat" where
  "decodeVarint32 data offset = decodeVarint32_loop data offset 0 0 0"

section \<open>Field encoders\<close>

text \<open>
  The scripts build every field as \<^verbatim>\<open>result[0] = (fieldNumber << 3) | wireType\<close>
  followed by the payload. The tag is stored into a \<^verbatim>\<open>Uint8Array\<close>, so only its low
  eight bits are kept. A JavaScript string is handed over as its UTF-8 bytes, which is what
  \<^verbatim>\<open>new TextEncoder().encode(value)\<close> yields; it is empty exactly when the string is.
\<close>

definition fieldTag :: "nat \<Rightarrow> nat \<Rightarrow> byte" where
  "fieldTag fieldNumber wt = word_of_nat (push_bit 3 fieldNumber OR wt)"

text \<open>\<^verbatim>\<open>encodeStringField\<close> of the interaction-query and message-comparison scripts.\<close>

definition encodeStringField :: "nat \<Rightarrow> byte list \<Rightarrow> byte list" where
  "encodeStringField fieldNumber encoded =
     fieldTag fieldNumber 2 # encodeVarint (length encoded) @ encoded"

text \<open>
  \<^verbatim>\<open>encodeStringField\<close> of the tool-encoding script starts with
  \<^verbatim>\<open>if (!value) return new Uint8Array(0)\<close>.
\<close>

definition encodeStringField' :: "nat \<Rightarrow> byte list \<Rightarrow> byte list" where
  "encodeStringField' fieldNumber encoded =
     (if encoded = [] then []
      else fieldTag fieldNumber 2 # encodeVarint (length encoded) @ encoded)"

definition encodeInt32Field :: "nat \<Rightarrow> nat \<Rightarrow> byte list" where
  "encodeInt32Field fieldNumber v =
     (if v = 0 then [] else fieldTag fieldNumber 0 # encodeVarint v)"

definition encodeUint32Field :: "nat \<Rightarrow> nat \<Rightarrow> byte list" where
  "encodeUint32Field fieldNumber v =
     (if v = 0 then [] else fieldTag fieldNumber 0 # encodeVarint v)"

text \<open>\<^verbatim>\<open>encodeInt64Field\<close> has no test for zero.\<close>

definition encodeInt64Field :: "nat \<Rightarrow> nat \<Rightarrow> byte list" where
  "encodeInt64Field fieldNumber v = fieldTag fieldNumber 0 # encodeVarint v"

text \<open>The version of \<^verbatim>\<open>encodeMessageField\<close> "that always includes field even if empty".\<close>

definition encodeMessageField :: "nat \<Rightarrow> byte list \<Rightarrow> byte list" where
  "encodeMessageField fieldNumber data =
     fieldTag fieldNumber 2 # encodeVarint (length data) @ data"

text \<open>The version "that skips empty messages (what test-exec-flow.ts uses)".\<close>

definition encodeMessageFieldSkipEmpty :: "nat \<Rightarrow> byte list \<Rightarrow> byte list" where
  "encodeMessageFieldSkipEmpty fieldNumber data =
     (if data = [] then []
      else fieldTag fieldNumber 2 # encodeVarint (length data) @ data)"

definition encodeBoolField :: "nat \<Rightarrow> bool \<Rightarrow> byte list" where
  "encodeBoolField fieldNumber b = [fieldTag fieldNumber 0, if b then 1 else 0]"

text \<open>
  \<^verbatim>\<open>encodeDoubleField\<close> writes the tag and then \<^verbatim>\<open>view.setFloat64(1, value, true)\<close>:
  the eight bytes of the number's IEEE-754 bit pattern, low byte first. A JavaScript number
  is carried here as that 64-bit pattern.
\<close>

definition encodeDoubleField :: "nat \<Rightarrow> 64 word \<Rightarrow> byte list" where
  "encodeDoubleField fieldNumber bits =
     fieldTag fieldNumber 1 # map (\<lambda>i. ucast (drop_bit (8 * i) bits)) [0..<8]"

definition concatBytes :: "byte list list \<Rightarrow> byte list" where
  "concatBytes arrays = concat arrays"

subsection \<open>The agent run request\<close>

text \<open>
  \<^verbatim>\<open>agentRunRequest\<close> as the interaction-query script builds it, which is also
  \<^verbatim>\<open>agentRunRequest1\<close> of the message-comparison script ("test-bidi-chat.ts style
  (WORKS)"): the conversation state of a first turn is the empty byte array, passed to the
  encoder that never skips. The conversation action, the model details and the conversation
  id are the caller's.
\<close>

definition emptyConvState :: "byte list" where
  "emptyConvState = []"

definition agentRunRequest :: "byte list \<Rightarrow> byte list \<Rightarrow> byte list \<Rightarrow> byte list" where
  "agentRunRequest conversationAction modelDetails conversationId =
     concatBytes
       [encodeMessageField 1 emptyConvState,
        encodeMessageField 2 conversationAction,
        encodeMessageField 3 modelDetails,
        encodeStringField 5 conversationId]"

text \<open>
  \<^verbatim>\<open>agentRunRequest2\<close> of the message-comparison script ("test-exec-flow.ts style (OLD -
  skipping empty)", printed under "Fails").
\<close>

definition agentRunRequest2 :: "byte list \<Rightarrow> byte list \<Rightarrow> byte list \<Rightarrow> byte list" where
  "agentRunRequest2 conversationAction modelDetails conversationId =
     concatBytes
       [encodeMessageFieldSkipEmpty 1 emptyConvState,
        encodeMessageField 2 conversationAction,
        encodeMessageField 3 modelDetails,
        encodeStringField 5 conversationId]"

text \<open>
  The append request of the interaction-query script: the hex text of the client message,
  the request id, and the sequence number \<^verbatim>\<open>encodeInt64Field(3, 0n)\<close>.
\<close>

definition bidiAppendRequest :: "byte list \<Rightarrow> byte list \<Rightarrow> byte list" where
  "bidiAppendRequest hexData bidiRequestIdForAppend =
     concatBytes
       [encodeStringField 1 hexData,
        encodeMessageField 2 bidiRequestIdForAppend,
        encodeInt64Field 3 0]"

section \<open>Dynamic values\<close>

text \<open>
  The values \<^verbatim>\<open>encodeProtobufValue\<close> distinguishes: \<^verbatim>\<open>null\<close> (and \<^verbatim>\<open>undefined\<close>),
  numbers, strings, booleans, arrays and objects. An object is the list of its
  \<^verbatim>\<open>Object.entries\<close>, in that order.
\<close>

datatype json = JNull | JNumber "64 word" | JString "byte list" | JBool bool
  | JArray "json list" | JObject "(byte list \<times> json) list"

fun encodeProtobufValue :: "json \<Rightarrow> byte list" where
  "encodeProtobufValue JNull = encodeUint32Field 1 0"
| "encodeProtobufValue (JNumber d) = encodeDoubleField 2 d"
| "encodeProtobufValue (JString s) = encodeStringField' 3 s"
| "encodeProtobufValue (JBool b) = encodeBoolField 4 b"
| "encodeProtobufValue (JArray items) =
     encodeMessageField 6
       (concatBytes (map (\<lambda>item. encodeMessageField 1 (encodeProtobufValue item)) items))"
| "encodeProtobufValue (JObject entries) =
     encodeMessageField 5
       (concatBytes (map (\<lambda>(key, val).
          encodeMessageField 1
            (concatBytes [encodeStringField' 1 key,
                          encodeMessageField 2 (encodeProtobufValue val)])) entries))"

section \<open>The generic message decoder\<close>

text \<open>
  \<^verbatim>\<open>Uint8Array.prototype.slice(start, end)\<close>: a negative index counts from the end, both
  indices are clamped to the array, and an end before the start gives the empty array.
\<close>

definition slice_bytes :: "byte list \<Rightarrow> int \<Rightarrow> int \<Rightarrow> byte list" where
  "slice_bytes xs start fin =
     (let len = int (length xs);
          k = (if start < 0 then max (len + start) 0 else min start len);
          final = (if fin < 0 then max (len + fin) 0 else min fin len)
      in take (nat (final - k)) (drop (nat k) xs))"

text \<open>
  \<^verbatim>\<open>interface ParsedField\<close>. The field \<^verbatim>\<open>value\<close> is a byte array or a BigInt. The
  numbers \<^verbatim>\<open>fieldNumber\<close> and \<^verbatim>\<open>length\<close> are kept exact here; JavaScript's
  \<^verbatim>\<open>Number(...)\<close> rounds a BigInt above \<open>2^53\<close>, which changes no branch of the loop:
  a length that large is beyond the end of any buffer, where \<^verbatim>\<open>slice\<close> and the loop
  test behave alike.
\<close>

datatype field_value = Bytes "byte list" | Varint nat

record ParsedField =
  fieldNumber :: nat
  wireType :: nat
  fieldValue :: field_value
  fieldOffset :: nat
  fieldLength :: nat

text \<open>
  The loop of \<^verbatim>\<open>parseProtoFields\<close>, from the current \<^verbatim>\<open>offset\<close>. Each round pushes
  one field and goes on, except for a wire type other than 0, 1, 2 and 5: that round logs
  "Unknown wire type" and leaves the loop with \<^verbatim>\<open>break\<close>, and the function returns the
  fields pushed so far. The termination proof shows that a round reads at least the tag
  byte.
\<close>

function parseProtoFields_loop :: "byte list \<Rightarrow> nat \<Rightarrow> ParsedField list" where
  "parseProtoFields_loop data offset =
     (if offset < length data then
        (let startOffset = offset;
             tagInfo = decodeVarint data offset;
             offset1 = offset + snd tagInfo;
             fieldNumber = drop_bit 3 (fst tagInfo);
             wireType = fst tagInfo AND 0x7
         in if wireType = 2 then
              (let lengthInfo = decodeVarint data offset1;
                   offset2 = offset1 + snd lengthInfo;
                   len = fst lengthInfo;
                   v = slice_bytes data (int offset2) (int (offset2 + len));
                   offset3 = offset2 + len
               in \<lparr>fieldNumber = fieldNumber, wireType = wireType, fieldValue = Bytes v,
                   fieldOffset = startOffset, fieldLength = offset3 - startOffset\<rparr>
                  # parseProtoFields_loop data offset3)
            else if wireType = 0 then
              (let valueInfo = decodeVarint data offset1;
                   offset2 = offset1 + snd valueInfo
               in \<lparr>fieldNumber = fieldNumber, wireType = wireType,
                   fieldValue = Varint (fst valueInfo),
                   fieldOffset = startOffset, fieldLength = offset2 - startOffset\<rparr>
                  # parseProtoFields_loop data offset2)
            else if wireType = 1 then
              (let v = slice_bytes data (int offset1) (int (offset1 + 8));
                   offset2 = offset1 + 8
               in \<lparr>fieldNumber = fieldNumber, wireType = wireType, fieldValue = Bytes v,
                   fieldOffset = startOffset, fieldLength = 8\<rparr>
                  # parseProtoFields_loop data offset2)
            else if wireType = 5 then
              (let v = slice_bytes data (int offset1) (int (offset1 + 4));
                   offset2 = offset1 + 4
               in \<lparr>fieldNumber = fieldNumber, wireType = wireType, fieldValue = Bytes v,
                   fieldOffset = startOffset, fieldLength = 4\<rparr>
                  # parseProtoFields_loop data offset2)
            else [])
      else [])"
  by pat_completeness auto
termination
proof (relation "measure (\<lambda>(data, offset). length data - offset)")
  have mono: "bytesRead \<le> snd (decodeVarint_loop data offset val shift bytesRead)"
    for data offset val shift bytesRead
  proof (induction data offset val shift bytesRead rule: decodeVarint_loop.induct)
    case (1 data offset val shift bytesRead)
    show ?case
    proof (cases "offset + bytesRead < length data")
      case False
      then show ?thesis by (subst decodeVarint_loop.simps) simp
    next
      case True
      show ?thesis
      proof (cases "data ! (offset + bytesRead) AND 0x80 = 0")
        case stop: True
        with True show ?thesis by (subst decodeVarint_loop.simps) (simp add: Let_def)
      next
        case cont: False
        have "bytesRead + 1 \<le> snd (decodeVarint_loop data offset
                (val OR push_bit shift (unat (data ! (offset + bytesRead) AND 0x7f)))
                (shift + 7) (bytesRead + 1))"
          using True cont by (intro "1.IH") simp_all
        with True cont show ?thesis
          by (subst decodeVarint_loop.simps) (simp add: Let_def)
      qed
    qed
  qed
  have progress: "1 \<le> snd (decodeVarint data offset)" if "offset < length data" for data offset
  proof (cases "data ! offset AND 0x80 = 0")
    case True
    with that show ?thesis
      unfolding decodeVarint_def by (subst decodeVarint_loop.simps) (simp add: Let_def)
  next
    case False
    have "0 + 1 \<le> snd (decodeVarint_loop data offset (0 OR push_bit 0 (unat (data ! offset AND 0x7f))) (0 + 7) (0 + 1))"
      by (rule mono)
    with False that show ?thesis
      unfolding decodeVarint_def by (subst decodeVarint_loop.simps) (simp add: Let_def)
  qed
  show "wf (measure (\<lambda>(data, offset). length data - offset))" by simp
  fix data :: "byte list" and offset :: nat
  assume lt: "offset < length data"
  note p = progress [OF lt]
  fix startOffset tagInfo offset1 fn wt
  assume defs: "startOffset = offset" "tagInfo = decodeVarint data offset" "offset1 = offset + snd tagInfo"
  {
    fix lengthInfo :: "nat \<times> nat" and offset2 len :: nat and v :: "byte list" and offset3
    assume "offset2 = offset1 + snd lengthInfo" "offset3 = offset2 + len"
    with lt p defs show "((data, offset3), data, offset) \<in> measure (\<lambda>(data, offset). length data - offset)"
      by simp
  }
  {
    fix valueInfo :: "nat \<times> nat" and offset2
    assume "offset2 = offset1 + snd valueInfo"
    with lt p defs show "((data, offset2), data, offset) \<in> measure (\<lambda>(data, offset). length data - offset)"
      by simp
  }
  {
    fix v :: "byte list" and offset2
    assume "offset2 = offset1 + 8"
    with lt p defs show "((data, offset2), data, offset) \<in> measure (\<lambda>(data, offset). length data - offset)"
      by simp
  }
  {
    fix v :: "byte list" and offset2
    assume "offset2 = offset1 + 4"
    with lt p defs show "((data, offset2), data, offset) \<in> measure (\<lambda>(data, offset). length data - offset)"
      by simp
  }
qed

declare parseProtoFields_loop.simps [simp del]

definition parseProtoFields :: "byte list \<Rightarrow> ParsedField list" where
  "parseProtoFields data = parseProtoFields_loop data 0"

subsection \<open>Fields on the wire\<close>

text \<open>
  The bytes a field occupies in a message, for each wire type the decoder has a branch for:
  the tag \<open>(fieldNumber << 3) | wireType\<close> as a varint, then a varint (wire type 0), a
  varint length and that many bytes (wire type 2), eight bytes (wire type 1) or four bytes
  (wire type 5). For a field number below 16 the tag is one byte, and the wire types 2, 0
  and 1 are what \<open>encodeMessageField\<close>, \<open>encodeInt64Field\<close> and \<open>encodeDoubleField\<close>
  write. Field numbers and lengths are below \<open>2^53\<close>, where \<^verbatim>\<open>Number(...)\<close> is exact.
\<close>

definition wire_field :: "nat \<Rightarrow> nat \<Rightarrow> field_value \<Rightarrow> byte list" where
  "wire_field n w v =
     encodeVarint (8 * n + w)
     @ (case v of
          Varint x \<Rightarrow> encodeVarint x
        | Bytes d \<Rightarrow> if w = 2 then encodeVarint (length d) @ d else d)"

definition well_formed_field :: "nat \<times> nat \<times> field_value \<Rightarrow> bool" where
  "well_formed_field f =
     (case f of (n, w, v) \<Rightarrow>
        n < 2 ^ 53 \<and>
        (case v of
           Varint x \<Rightarrow> w = 0
         | Bytes d \<Rightarrow> w = 2 \<and> length d < 2 ^ 53 \<or> w = 1 \<and> length d = 8 \<or> w = 5 \<and> length d = 4))"

section \<open>The envelope framer\<close>

text \<open>
  A frame is one flag byte, the payload length in four bytes, high byte first, and the
  payload. The model-list script builds its request frame this way, with
  \<^verbatim>\<open>(len >> 24) & 0xff\<close> and so on; its flag byte is 0. Frames sent by the server carry
  other flag bytes in the same layout (\<open>0x80\<close> marks a trailer), so the flag byte is an
  argument here.
\<close>

record WireFrame =
  flags :: byte
  payload :: "byte list"

definition framedBody :: "byte \<Rightarrow> byte list \<Rightarrow> byte list" where
  "framedBody flag requestBody =
     (let len = length requestBody
      in [flag,
          word_of_nat (drop_bit 24 len), word_of_nat (drop_bit 16 len),
          word_of_nat (drop_bit 8 len), word_of_nat len] @ requestBody)"

text \<open>
  Reading a \<^verbatim>\<open>Uint8Array\<close> at an index outside the array gives \<^verbatim>\<open>undefined\<close>, which
  the bit operators treat as 0.
\<close>

definition byte_at :: "byte list \<Rightarrow> int \<Rightarrow> byte option" where
  "byte_at xs i = (if 0 \<le> i \<and> i < int (length xs) then Some (xs ! nat i) else None)"

definition to_int32 :: "byte option \<Rightarrow> 32 word" where
  "to_int32 b = (case b of None \<Rightarrow> 0 | Some x \<Rightarrow> ucast x)"

text \<open>
  The length of the frame at \<^verbatim>\<open>offset\<close>, as the reader computes it:
  \<^verbatim>\<open>(b1 << 24) | (b2 << 16) | (b3 << 8) | b4\<close>. These are 32-bit signed operations in
  JavaScript, so a first length byte of \<open>0x80\<close> or more gives a negative length.
\<close>

definition frame_length :: "byte list \<Rightarrow> int \<Rightarrow> int" where
  "frame_length fullBuffer offset =
     sint (push_bit 24 (to_int32 (byte_at fullBuffer (offset + 1)))
           OR push_bit 16 (to_int32 (byte_at fullBuffer (offset + 2)))
           OR push_bit 8 (to_int32 (byte_at fullBuffer (offset + 3)))
           OR to_int32 (byte_at fullBuffer (offset + 4)))"

text \<open>
  The inner loop "Parse all frames in the buffer": from \<^verbatim>\<open>offset\<close>, while a header fits,
  read the length, leave the loop when the frame is incomplete, otherwise take the frame
  and move on. The result is the list of frames taken, each with its flag byte
  (\<^verbatim>\<open>flags ?? 0\<close>) and its \<^verbatim>\<open>frameData\<close>, and the offset at which the loop stopped. What
  the script does with a frame (printing a trailer, decoding and printing a data frame)
  changes neither the buffer nor the offset. With a negative length the offset can move
  backwards, so the loop is a partial function: \<open>None\<close> stands for a loop that never ends.
\<close>

partial_function (option) frame_loop :: "byte list \<Rightarrow> int \<Rightarrow> (WireFrame list \<times> int) option" where
  "frame_loop fullBuffer offset =
     (if offset + 5 \<le> int (length fullBuffer) then
        (let flags = byte_at fullBuffer offset;
             len = frame_length fullBuffer offset
         in if offset + 5 + len > int (length fullBuffer) then Some ([], offset)
            else
              (let frameData = slice_bytes fullBuffer (offset + 5) (offset + 5 + len)
               in Option.bind (frame_loop fullBuffer (offset + 5 + len))
                    (\<lambda>(frames, offset').
                       Some (\<lparr>flags = (case flags of None \<Rightarrow> 0 | Some b \<Rightarrow> b),
                              payload = frameData\<rparr> # frames, offset'))))
      else Some ([], offset))"

declare frame_loop.simps [code]

text \<open>
  One round of the reader: append the chunk \<^verbatim>\<open>value\<close> to \<^verbatim>\<open>fullBuffer\<close>, take the
  frames from offset 0, and keep \<^verbatim>\<open>fullBuffer.slice(offset)\<close>.
\<close>

definition process_chunk :: "byte list \<Rightarrow> byte list \<Rightarrow> (WireFrame list \<times> byte list) option" where
  "process_chunk fullBuffer v =
     (let newBuffer = fullBuffer @ v
      in Option.bind (frame_loop newBuffer 0)
           (\<lambda>(frames, offset). Some (frames, slice_bytes newBuffer offset (int (length newBuffer)))))"

text \<open>
  Frame reassembly over a sequence of chunks: every chunk goes through one such round, and
  the buffer a round keeps is the buffer of the next. The result is every frame taken, in
  order, and the buffer left at the end.
\<close>

fun reassemble :: "byte list \<Rightarrow> byte list list \<Rightarrow> (WireFrame list \<times> byte list) option" where
  "reassemble fullBuffer [] = Some ([], fullBuffer)"
| "reassemble fullBuffer (v # rest) =
     (case process_chunk fullBuffer v of
        None \<Rightarrow> None
      | Some (frames, fullBuffer') \<Rightarrow>
          (case reassemble fullBuffer' rest of
             None \<Rightarrow> None
           | Some (later, final) \<Rightarrow> Some (frames @ later, final)))"

text \<open>
  The read driver of the script runs these rounds over the chunks that
  \<^verbatim>\<open>reader.read()\<close> delivers until it reports \<^verbatim>\<open>done\<close>. It counts the chunks in
  \<^verbatim>\<open>chunks\<close> and, after a round, leaves its loop when \<^verbatim>\<open>chunks > 50\<close> ("Max chunks
  reached"). The result is every frame taken, in order.
\<close>

fun read_loop :: "byte list list \<Rightarrow> nat \<Rightarrow> byte list \<Rightarrow> WireFrame list option" where
  "read_loop [] chunks fullBuffer = Some []"
| "read_loop (v # rest) chunks fullBuffer =
     (case process_chunk fullBuffer v of
        None \<Rightarrow> None
      | Some (frames, fullBuffer') \<Rightarrow>
          if chunks + 1 > 50 then Some frames
          else map_option (\<lambda>later. frames @ later) (read_loop rest (chunks + 1) fullBuffer'))"

definition read_stream :: "byte list list \<Rightarrow> WireFrame list option" where
  "read_stream reads = read_loop reads 0 []"

text \<open>
  A stream of frames on the wire, and the frames a reader can take in: the four length bytes
  are read as a signed 32-bit number, so a payload has fewer than \<open>2^31\<close> bytes.
\<close>

definition encode_frames :: "WireFrame list \<Rightarrow> byte list" where
  "encode_frames fs = concat (map (\<lambda>f. framedBody (flags f) (payload f)) fs)"

definition valid_frame :: "WireFrame \<Rightarrow> bool" where
  "valid_frame f = (length (payload f) < 2 ^ 31)"

section \<open>The message mapper\<close>

text \<open>
  The response direction of the message mapper and the tool-calling rule of the session
  logic live in \<^verbatim>\<open>src/server.ts\<close>, \<^verbatim>\<open>src/plugin/plugin.ts\<close> and
  \<^verbatim>\<open>src/lib/api/agent-service.ts\<close>, which are not among the source files at hand; the
  tool-calling notes and the README describe them. The definitions of this section follow
  the specification.
\<close>

text \<open>
  Modelled from the spec: the kinds of exec request ("shell/read/write/list/grep/mcp
  variants, discriminated by an inner oneof-like field number"). A grep request carries a
  pattern or a glob, an MCP request its original tool name; any other discriminator is an
  unknown kind, kept with its raw name.
\<close>

datatype grep_mode = GrepPattern | GrepGlob

datatype exec_kind = Shell | Read | Write | Ls | Grep grep_mode | Mcp string | UnknownKind string

text \<open>
  Modelled from the spec: the tool name mapping ("shell\<rightarrow>bash, read\<rightarrow>read, write\<rightarrow>write,
  ls\<rightarrow>list, grep(pattern)\<rightarrow>grep, grep(glob)\<rightarrow>glob, mcp\<rightarrow>passthrough; unknown kinds map to
  a sentinel "unknown" name rather than throwing").
\<close>

definition tool_name :: "exec_kind \<Rightarrow> string" where
  "tool_name k =
     (case k of
        Shell \<Rightarrow> ''bash''
      | Read \<Rightarrow> ''read''
      | Write \<Rightarrow> ''write''
      | Ls \<Rightarrow> ''list''
      | Grep GrepPattern \<Rightarrow> ''grep''
      | Grep GrepGlob \<Rightarrow> ''glob''
      | Mcp original \<Rightarrow> original
      | UnknownKind raw \<Rightarrow> ''unknown'')"

text \<open>
  Modelled from the spec: the neutral event ("tagged variant over TextDelta(text),
  ToolInvocation(kind, arguments, callId), Error(code, message), Done").
\<close>

datatype BackendEvent =
    TextDelta string
  | ToolInvocation string string string
  | Error nat string
  | Done

text \<open>
  Modelled from the spec: an exec request becomes "a canonical ToolInvocation" under the
  mapped name, with its arguments and call id as they came.
\<close>

definition tool_invocation :: "exec_kind \<Rightarrow> string \<Rightarrow> string \<Rightarrow> BackendEvent" where
  "tool_invocation k arguments callId = ToolInvocation (tool_name k) arguments callId"

text \<open>
  Modelled from the spec: what a data frame of the backend stream carries for the mapper,
  an interaction update with a text delta, an exec request, or some other field.
\<close>

datatype backend_item =
    TextItem string
  | ExecRequest exec_kind string string
  | OtherItem

text \<open>
  Modelled from the spec: the events of one turn of a request that supplies tool
  definitions ("emit exactly one ToolInvocation event per detected exec-request in the
  backend stream, then terminate the stream with Done (no further TextDelta after any
  ToolInvocation in the same turn)"). The flag tells whether a tool invocation has been
  emitted.
\<close>

fun tool_turn_events :: "bool \<Rightarrow> backend_item list \<Rightarrow> BackendEvent list" where
  "tool_turn_events seen [] = [Done]"
| "tool_turn_events seen (TextItem t # items) =
     (if seen then tool_turn_events seen items else TextDelta t # tool_turn_events seen items)"
| "tool_turn_events seen (ExecRequest k arguments callId # items) =
     tool_invocation k arguments callId # tool_turn_events True items"
| "tool_turn_events seen (OtherItem # items) = tool_turn_events seen items"

definition submit_with_tools :: "backend_item list \<Rightarrow> BackendEvent list" where
  "submit_with_tools items = tool_turn_events False items"

text \<open>
  Modelled from the spec: the text of a non-streaming caller ("concatenate all TextDelta
  payloads in arrival order; the first ToolInvocation observed terminates concatenation
  early").
\<close>

fun collect_text :: "BackendEvent list \<Rightarrow> string" where
  "collect_text [] = []"
| "collect_text (TextDelta t # es) = t @ collect_text es"
| "collect_text (ToolInvocation n a c # es) = []"
| "collect_text (e # es) = collect_text es"

text \<open>The kinds of events and items, for the statements below.\<close>

fun is_tool :: "BackendEvent \<Rightarrow> bool" where
  "is_tool (ToolInvocation n a c) = True"
| "is_tool e = False"

fun is_text :: "BackendEvent \<Rightarrow> bool" where
  "is_text (TextDelta t) = True"
| "is_text e = False"

fun is_exec :: "backend_item \<Rightarrow> bool" where
  "is_exec (ExecRequest k a c) = True"
| "is_exec i = False"

chapter \<open>Properties\<close>

section \<open>Bytes and bit masks\<close>

lemma and_7f_mask: "(x::nat) AND 0x7f = x mod 128"
proof -
  have "x AND mask 7 = x mod 2 ^ 7"
    by (simp only: take_bit_eq_mask [symmetric] take_bit_eq_mod)
  moreover have "mask 7 = (127::nat)" by (simp add: mask_eq_exp_minus_1)
  ultimately show ?thesis by simp
qed

lemma and_80_nat: "((x::nat) AND 0x80 = 0) = even (x div 128)"
  using and_exp_eq_0_iff_not_bit [of x 7] by (simp add: bit_iff_odd)

lemma byte_and_7f: "unat ((b :: byte) AND 0x7f) = unat b mod 128"
  by (simp add: unsigned_and_eq and_7f_mask)

lemma even_div_128: "x < 256 \<Longrightarrow> even ((x::nat) div 128) = (x < 128)"
proof (cases "x < 128")
  case True
  then show ?thesis by simp
next
  case False
  assume "x < 256"
  with False have "x div 128 = 1" by (intro div_nat_eqI) simp_all
  with False show ?thesis by simp
qed

lemma byte_and_80: "((b :: byte) AND 0x80 = 0) = (unat b < 128)"
proof -
  have "((b :: byte) AND 0x80 = 0) = (unat (b AND 0x80) = 0)"
    by (simp only: unat_eq_0)
  also have "unat (b AND 0x80) = unat b AND unat (0x80 :: byte)"
    by (rule unsigned_and_eq)
  also have "unat (0x80 :: byte) = 128"
    by simp
  also have "(unat b AND 128 = 0) = even (unat b div 128)"
    by (simp only: and_80_nat)
  also have "\<dots> = (unat b < 128)"
  proof (rule even_div_128)
    show "unat b < 256" using unsigned_less [of b] by simp
  qed
  finally show ?thesis .
qed

lemma low_or_high: "((v::nat) AND 0x7f) OR 0x80 = v mod 128 + 128"
proof -
  have "(v mod 128) AND 128 = 0"
    by (simp add: and_80_nat)
  then show ?thesis
    by (simp add: and_7f_mask disjunctive_add_eq_or)
qed

lemma unat_cont_byte: "unat (word_of_nat ((v AND 0x7f) OR 0x80) :: byte) = v mod 128 + 128"
proof -
  have "unat (word_of_nat ((v AND 0x7f) OR 0x80) :: byte) = ((v AND 0x7f) OR 0x80) mod 2 ^ LENGTH(8)"
    by (rule unat_of_nat)
  also have "\<dots> = (v mod 128 + 128) mod 256"
    by (simp only: low_or_high) simp
  also have "\<dots> = v mod 128 + 128"
    by simp
  finally show ?thesis .
qed

lemma unat_last_byte: "v \<le> 127 \<Longrightarrow> unat (word_of_nat v :: byte) = v"
  by (simp add: unat_of_nat)

lemma or_push_bit_add:
  fixes val :: nat
  assumes "val < 2 ^ s"
  shows "val OR push_bit s x = val + x * 2 ^ s"
proof -
  have "\<not> bit val n \<or> \<not> bit (push_bit s x) n" for n
  proof (cases "s \<le> n")
    case True
    then have "(2::nat) ^ s \<le> 2 ^ n" by simp
    with assms have "val < 2 ^ n" by (rule less_le_trans)
    then have "val div 2 ^ n = 0" by simp
    then show ?thesis by (simp add: bit_iff_odd)
  next
    case False
    then show ?thesis by (simp add: bit_push_bit_iff)
  qed
  then have "val + push_bit s x = val OR push_bit s x"
    by (rule disjunctive_add)
  then show ?thesis by (simp add: push_bit_eq_mult)
qed

section \<open>Varint round trip\<close>

text \<open>
  The decoder, started inside a buffer at the first byte of an encoded varint with an
  accumulator that fits below the current shift, adds the encoded number at that shift and
  consumes exactly the encoded bytes, whatever follows them.
\<close>

lemma decodeVarint_loop_encodeVarint:
  assumes "length pre = offset + bytesRead" and "val < 2 ^ shift"
  shows "decodeVarint_loop (pre @ encodeVarint v @ suf) offset val shift bytesRead
         = (val + v * 2 ^ shift, bytesRead + length (encodeVarint v))"
  using assms
proof (induction v arbitrary: pre val shift bytesRead rule: encodeVarint.induct)
  case (1 v)
  define buf where "buf = pre @ encodeVarint v @ suf"
  show ?case
  proof (cases "v > 127")
    case True
    define b :: byte where "b = word_of_nat ((v AND 0x7f) OR 0x80)"
    define val' where "val' = val + (v mod 128) * 2 ^ shift"
    have enc: "encodeVarint v = b # encodeVarint (drop_bit 7 v)"
      using True by (subst encodeVarint.simps) (simp add: b_def)
    have ub: "unat b = v mod 128 + 128"
      by (simp add: b_def unat_cont_byte)
    have nth: "buf ! (offset + bytesRead) = b"
      using "1.prems"(1) by (simp add: buf_def enc nth_append)
    have lt: "offset + bytesRead < length buf"
      using "1.prems"(1) by (simp add: buf_def enc)
    have cont: "b AND 0x80 \<noteq> 0"
      by (simp add: byte_and_80 ub)
    have low: "unat (b AND 0x7f) = v mod 128"
      by (simp add: byte_and_7f ub)
    have val'_eq: "val OR push_bit shift (unat (b AND 0x7f)) = val'"
      using "1.prems"(2) by (simp add: low or_push_bit_add val'_def)
    have "v mod 128 < 128" by simp
    then have "v mod 128 \<le> 127" by linarith
    then have "(v mod 128) * 2 ^ shift \<le> 127 * 2 ^ shift"
      by (rule mult_le_mono1)
    with "1.prems"(2) have "val + (v mod 128) * 2 ^ shift < 2 ^ shift + 127 * 2 ^ shift"
      by (rule add_less_le_mono)
    also have "\<dots> = 2 ^ (shift + 7)"
      by (simp add: power_add)
    finally have val'_lt: "val' < 2 ^ (shift + 7)"
      by (simp only: val'_def)
    have step: "decodeVarint_loop buf offset val shift bytesRead
          = decodeVarint_loop buf offset val' (shift + 7) (bytesRead + 1)"
      by (subst decodeVarint_loop.simps) (simp add: lt cont nth val'_eq Let_def)
    have app: "buf = (pre @ [b]) @ encodeVarint (drop_bit 7 v) @ suf"
      by (simp add: buf_def enc)
    have "decodeVarint_loop ((pre @ [b]) @ encodeVarint (drop_bit 7 v) @ suf) offset val' (shift + 7) (bytesRead + 1)
          = (val' + drop_bit 7 v * 2 ^ (shift + 7), (bytesRead + 1) + length (encodeVarint (drop_bit 7 v)))"
      using "1.prems"(1) val'_lt by (intro "1.IH" [OF True]) simp_all
    then have ih: "decodeVarint_loop buf offset val' (shift + 7) (bytesRead + 1)
          = (val' + drop_bit 7 v * 2 ^ (shift + 7), (bytesRead + 1) + length (encodeVarint (drop_bit 7 v)))"
      by (simp only: app)
    have sum: "val' + drop_bit 7 v * 2 ^ (shift + 7) = val + v * 2 ^ shift"
    proof -
      define q where "q = v div 128"
      define r where "r = v mod 128"
      have v_eq: "q * 128 + r = v"
        by (simp add: q_def r_def)
      have "val + r * 2 ^ shift + q * 2 ^ (shift + 7) = val + (q * 128 + r) * 2 ^ shift"
        by (simp add: power_add algebra_simps)
      then have a: "val + r * 2 ^ shift + q * 2 ^ (shift + 7) = val + v * 2 ^ shift"
        by (simp only: v_eq)
      have b: "val' = val + r * 2 ^ shift"
        by (simp add: val'_def r_def)
      have c: "drop_bit 7 v = q"
        by (simp add: q_def drop_bit_eq_div)
      show ?thesis
        unfolding b c by (rule a)
    qed
    have "length (encodeVarint v) = Suc (length (encodeVarint (drop_bit 7 v)))"
      by (subst enc) simp
    then have len: "(bytesRead + 1) + length (encodeVarint (drop_bit 7 v)) = bytesRead + length (encodeVarint v)"
      by simp
    have "decodeVarint_loop buf offset val shift bytesRead
          = (val + v * 2 ^ shift, bytesRead + length (encodeVarint v))"
      by (simp only: step ih sum len)
    then show ?thesis by (simp only: buf_def)
  next
    case False
    define b :: byte where "b = word_of_nat v"
    have enc: "encodeVarint v = [b]"
      using False by (subst encodeVarint.simps) (simp add: b_def)
    have ub: "unat b = v"
      using False by (simp add: b_def unat_last_byte)
    have nth: "buf ! (offset + bytesRead) = b"
      using "1.prems"(1) by (simp add: buf_def enc nth_append)
    have lt: "offset + bytesRead < length buf"
      using "1.prems"(1) by (simp add: buf_def enc)
    have stop: "b AND 0x80 = 0"
      using False by (simp add: byte_and_80 ub)
    have low: "unat (b AND 0x7f) = v"
      using False by (simp add: byte_and_7f ub)
    have val_eq: "val OR push_bit shift (unat (b AND 0x7f)) = val + v * 2 ^ shift"
      using "1.prems"(2) by (simp add: low or_push_bit_add)
    have "decodeVarint_loop buf offset val shift bytesRead
          = (val + v * 2 ^ shift, bytesRead + length (encodeVarint v))"
      by (subst decodeVarint_loop.simps) (simp add: lt stop nth val_eq Let_def enc)
    then show ?thesis by (simp only: buf_def)
  qed
qed

text \<open>
  Claim C4. For every unsigned integer \<open>v\<close>, decoding the bytes of \<open>encodeVarint v\<close> from
  offset 0 gives back \<open>v\<close> together with the number of bytes \<open>encodeVarint\<close> produced.
\<close>

theorem varint_roundtrip:
  "decodeVarint (encodeVarint v) 0 = (v, length (encodeVarint v))"
  using decodeVarint_loop_encodeVarint [of "[]" 0 0 0 0 v "[]"]
  by (simp add: decodeVarint_def)

section \<open>Truncated varints\<close>

text \<open>
  A run of bytes that all carry the continuation bit is consumed to the end of the buffer.
\<close>

lemma decodeVarint_loop_all_continue:
  assumes "length pre = offset + bytesRead" and "val < 2 ^ shift"
    and "\<forall>b \<in> set rest. b AND 0x80 \<noteq> 0"
  shows "decodeVarint_loop (pre @ rest) offset val shift bytesRead
         = (val + 2 ^ shift * foldr (\<lambda>b acc. unat (b AND 0x7f) + 128 * acc) rest 0,
            bytesRead + length rest)"
  using assms
proof (induction rest arbitrary: pre val shift bytesRead)
  case Nil
  then show ?case
    by (subst decodeVarint_loop.simps) simp
next
  case (Cons b rest)
  define val' where "val' = val + unat (b AND 0x7f) * 2 ^ shift"
  have lt: "offset + bytesRead < length (pre @ b # rest)"
    using Cons.prems(1) by simp
  have nth: "(pre @ b # rest) ! (offset + bytesRead) = b"
    using Cons.prems(1) by (simp add: nth_append)
  have cont: "b AND 0x80 \<noteq> 0"
    using Cons.prems(3) by simp
  have val'_eq: "val OR push_bit shift (unat (b AND 0x7f)) = val'"
    using Cons.prems(2) by (simp add: or_push_bit_add val'_def)
  have "unat (b AND 0x7f) < 128"
    by (simp add: byte_and_7f)
  then have "unat (b AND 0x7f) \<le> 127" by linarith
  then have "unat (b AND 0x7f) * 2 ^ shift \<le> 127 * 2 ^ shift"
    by (rule mult_le_mono1)
  with Cons.prems(2) have "val + unat (b AND 0x7f) * 2 ^ shift < 2 ^ shift + 127 * 2 ^ shift"
    by (rule add_less_le_mono)
  also have "\<dots> = 2 ^ (shift + 7)"
    by (simp add: power_add)
  finally have val'_lt: "val' < 2 ^ (shift + 7)"
    by (simp only: val'_def)
  have step: "decodeVarint_loop (pre @ b # rest) offset val shift bytesRead
        = decodeVarint_loop (pre @ b # rest) offset val' (shift + 7) (bytesRead + 1)"
    by (subst decodeVarint_loop.simps) (simp add: lt cont nth val'_eq Let_def del: length_append)
  have "decodeVarint_loop ((pre @ [b]) @ rest) offset val' (shift + 7) (bytesRead + 1)
        = (val' + 2 ^ (shift + 7) * foldr (\<lambda>b acc. unat (b AND 0x7f) + 128 * acc) rest 0,
           (bytesRead + 1) + length rest)"
    using Cons.prems(1,3) val'_lt by (intro Cons.IH) simp_all
  then have ih: "decodeVarint_loop (pre @ b # rest) offset val' (shift + 7) (bytesRead + 1)
        = (val' + 2 ^ (shift + 7) * foldr (\<lambda>b acc. unat (b AND 0x7f) + 128 * acc) rest 0,
           (bytesRead + 1) + length rest)"
    by simp
  show ?case
    unfolding step ih by (simp add: val'_def power_add algebra_simps)
qed

text \<open>
  The number version over such a run: the accumulator is a 32-bit word, the group of byte
  \<open>i\<close> is shifted by \<open>7 * i\<close> modulo 32, and the result is read as a signed number.
\<close>

lemma decodeVarint32_loop_all_continue:
  assumes "length pre = offset + bytesRead"
    and "\<forall>b \<in> set rest. b AND 0x80 \<noteq> 0"
  shows "decodeVarint32_loop (pre @ rest) offset val (7 * k) bytesRead
         = (sint (val OR foldr (\<lambda>(i, b) acc. push_bit (7 * i mod 32) (ucast (b AND 0x7f)) OR acc)
                           (enumerate k rest) 0),
            bytesRead + length rest)"
  using assms
proof (induction rest arbitrary: pre val k bytesRead)
  case Nil
  then show ?case
    by (subst decodeVarint32_loop.simps) simp
next
  case (Cons b rest)
  have lt: "offset + bytesRead < length (pre @ b # rest)"
    using Cons.prems(1) by simp
  have nth: "(pre @ b # rest) ! (offset + bytesRead) = b"
    using Cons.prems(1) by (simp add: nth_append)
  have cont: "b AND 0x80 \<noteq> 0"
    using Cons.prems(2) by simp
  define val' :: "32 word" where "val' = val OR push_bit (7 * k mod 32) (ucast (b AND 0x7f))"
  have step: "decodeVarint32_loop (pre @ b # rest) offset val (7 * k) bytesRead
        = decodeVarint32_loop (pre @ b # rest) offset val' (7 * k + 7) (bytesRead + 1)"
    by (subst decodeVarint32_loop.simps) (simp add: lt cont nth val'_def Let_def del: length_append)
  have k: "7 * k + 7 = 7 * Suc k" by simp
  have "decodeVarint32_loop ((pre @ [b]) @ rest) offset val' (7 * Suc k) (bytesRead + 1)
        = (sint (val' OR foldr (\<lambda>(i, b) acc. push_bit (7 * i mod 32) (ucast (b AND 0x7f)) OR acc)
                           (enumerate (Suc k) rest) 0),
           (bytesRead + 1) + length rest)"
    using Cons.prems by (intro Cons.IH) simp_all
  then have ih: "decodeVarint32_loop (pre @ b # rest) offset val' (7 * k + 7) (bytesRead + 1)
        = (sint (val' OR foldr (\<lambda>(i, b) acc. push_bit (7 * i mod 32) (ucast (b AND 0x7f)) OR acc)
                           (enumerate (Suc k) rest) 0),
           (bytesRead + 1) + length rest)"
    by (simp only: k append_assoc append_Cons append_Nil)
  show ?case
    unfolding step ih by (simp add: val'_def or.assoc)
qed

text \<open>
  Claim C10. \<open>decodeVarint\<close> is total: both versions are recursive functions whose
  termination is proved, and their result type has no error value. When every byte from an
  in-range offset up to the end of the buffer carries the continuation bit \<open>0x80\<close>, the
  varint is cut off by the end of the buffer; each decoder then returns the value it has
  accumulated from the bytes it had, and \<open>bytesRead\<close> is the number of bytes that were
  available. For the BigInt version the value is the number whose base-128 digits, low
  digit first, are the low seven bits of the bytes. For the number version of the
  tool-encoding script it is the signed 32-bit number obtained by or-ing the low seven bits
  of byte \<open>i\<close> shifted left by \<open>7 * i\<close> modulo 32.
\<close>

theorem decodeVarint_truncated:
  assumes "offset \<le> length data"
    and "\<forall>b \<in> set (drop offset data). b AND 0x80 \<noteq> 0"
  shows "decodeVarint data offset
           = (foldr (\<lambda>b acc. unat (b AND 0x7f) + 128 * acc) (drop offset data) 0,
              length data - offset)
         \<and> decodeVarint32 data offset
           = (sint (foldr (\<lambda>(i, b) acc. push_bit (7 * i mod 32) (ucast (b AND 0x7f)) OR acc)
                       (enumerate 0 (drop offset data)) (0 :: 32 word)),
              length data - offset)"
proof -
  have len: "length (take offset data) = offset + 0"
    using assms(1) by simp
  have a: "decodeVarint_loop (take offset data @ drop offset data) offset 0 0 0
        = (0 + 2 ^ 0 * foldr (\<lambda>b acc. unat (b AND 0x7f) + 128 * acc) (drop offset data) 0,
           0 + length (drop offset data))"
    using len assms(2) by (intro decodeVarint_loop_all_continue) simp_all
  have b: "decodeVarint32_loop (take offset data @ drop offset data) offset 0 (7 * 0) 0
        = (sint (0 OR foldr (\<lambda>(i, b) acc. push_bit (7 * i mod 32) (ucast (b AND 0x7f)) OR acc)
                           (enumerate 0 (drop offset data)) (0 :: 32 word)),
           0 + length (drop offset data))"
    using len assms(2) by (rule decodeVarint32_loop_all_continue)
  from a b show ?thesis
    by (simp add: decodeVarint_def decodeVarint32_def)
qed

theorem decodeVarint_truncated_witness:
  "decodeVarint [0x08, 0x96, 0x81] 1 = (150, 2)
   \<and> decodeVarint32 [0x08, 0x96, 0x81] 1 = (150, 2)
   \<and> decodeVarint [0xFF, 0xFF, 0xFF, 0xFF, 0xFF] 0 = (34359738367, 5)
   \<and> decodeVarint32 [0xFF, 0xFF, 0xFF, 0xFF, 0xFF] 0 = (-1, 5)"
  using decodeVarint_truncated [of 1 "[0x08, 0x96, 0x81]"]
    decodeVarint_truncated [of 0 "[0xFF, 0xFF, 0xFF, 0xFF, 0xFF]"]
  by simp

section \<open>Zero values on encode\<close>

lemma encodeVarint_0: "encodeVarint 0 = [0]"
  by (subst encodeVarint.simps) simp

lemma fieldTag_1_2: "fieldTag 1 2 = 0x0A"
  unfolding fieldTag_def by simp

lemma fieldTag_3_0: "fieldTag 3 0 = 0x18"
  by (simp add: fieldTag_def)

lemma encodeMessageField_empty: "encodeMessageField 1 [] = [0x0A, 0x00]"
  unfolding encodeMessageField_def fieldTag_1_2 by (simp add: encodeVarint_0)

lemmas encodeMessageField_empty' = encodeMessageField_empty [unfolded One_nat_def]

text \<open>
  Claim C3, as stated, fails: not every zero-valued scalar field is omitted. The sequence
  number of the append request is \<^verbatim>\<open>encodeInt64Field(3, 0n)\<close>, which is the two bytes
  \<open>18 00\<close>, and \<open>encodeBoolField\<close> writes \<open>false\<close> as a tag and a zero byte.
\<close>

theorem zero_int64_field_emitted:
  "encodeInt64Field 3 0 = [0x18, 0x00] \<and> encodeInt64Field 3 0 \<noteq> []
   \<and> encodeBoolField 4 False = [0x20, 0x00]"
  by (simp add: encodeInt64Field_def encodeBoolField_def fieldTag_def encodeVarint_0)

text \<open>
  Claim C3, amended. \<open>encodeInt32Field\<close> and \<open>encodeUint32Field\<close> produce no bytes exactly
  when the value is zero. \<open>encodeInt64Field\<close> produces bytes for every value, for zero the
  tag and a zero byte; \<open>encodeBoolField\<close> writes the tag and one byte for every value, a
  zero byte for \<open>false\<close>. The append request ends with its sequence number 0 as the bytes
  \<open>18 00\<close>. The first-turn conversation state is encoded by the encoder that never
  skips, as the present empty message \<open>0A 00\<close>; the skip-if-empty encoder produces no
  bytes for it, and the request of the working path is the skip-if-empty request with those
  two bytes in front, so the two are never equal.
\<close>

theorem zero_field_encodings:
  "(encodeInt32Field n v = []) = (v = 0)
   \<and> (encodeUint32Field n v = []) = (v = 0)
   \<and> encodeInt64Field n v \<noteq> []
   \<and> encodeInt64Field n 0 = [fieldTag n 0, 0x00]
   \<and> encodeBoolField n b = [fieldTag n 0, if b then 1 else 0]
   \<and> encodeBoolField n False = [fieldTag n 0, 0x00]
   \<and> bidiAppendRequest hexData bidiRequestIdForAppend
       = encodeStringField 1 hexData @ encodeMessageField 2 bidiRequestIdForAppend @ [0x18, 0x00]
   \<and> encodeMessageField 1 emptyConvState = [0x0A, 0x00]
   \<and> encodeMessageFieldSkipEmpty 1 emptyConvState = []
   \<and> take 2 (agentRunRequest conversationAction modelDetails conversationId) = [0x0A, 0x00]
   \<and> agentRunRequest conversationAction modelDetails conversationId
       = [0x0A, 0x00] @ agentRunRequest2 conversationAction modelDetails conversationId
   \<and> agentRunRequest conversationAction modelDetails conversationId
       \<noteq> agentRunRequest2 conversationAction modelDetails conversationId"
proof -
  have run: "agentRunRequest conversationAction modelDetails conversationId
       = [0x0A, 0x00] @ agentRunRequest2 conversationAction modelDetails conversationId"
    by (simp add: agentRunRequest_def agentRunRequest2_def concatBytes_def
        encodeMessageFieldSkipEmpty_def emptyConvState_def encodeMessageField_empty')
  have "length (agentRunRequest conversationAction modelDetails conversationId)
       \<noteq> length (agentRunRequest2 conversationAction modelDetails conversationId)"
    by (simp add: run)
  then have ne: "agentRunRequest conversationAction modelDetails conversationId
       \<noteq> agentRunRequest2 conversationAction modelDetails conversationId"
    by (rule contrapos_nn) simp
  have z: "(encodeInt32Field n v = []) = (v = 0)" "(encodeUint32Field n v = []) = (v = 0)"
    "encodeInt64Field n v \<noteq> []"
    "encodeInt64Field n 0 = [fieldTag n 0, 0x00]"
    "encodeBoolField n b = [fieldTag n 0, if b then 1 else 0]"
    "encodeBoolField n False = [fieldTag n 0, 0x00]"
    by (simp_all add: encodeInt32Field_def encodeUint32Field_def encodeInt64Field_def
        encodeBoolField_def encodeVarint_0)
  have "encodeInt64Field 3 0 = [0x18, 0x00]"
    by (simp add: encodeInt64Field_def fieldTag_3_0 encodeVarint_0)
  then have app: "bidiAppendRequest hexData bidiRequestIdForAppend
       = encodeStringField 1 hexData @ encodeMessageField 2 bidiRequestIdForAppend @ [0x18, 0x00]"
    by (simp add: bidiAppendRequest_def concatBytes_def)
  have m: "encodeMessageField 1 emptyConvState = [0x0A, 0x00]"
    "encodeMessageFieldSkipEmpty 1 emptyConvState = []"
    by (simp_all add: emptyConvState_def encodeMessageField_empty' encodeMessageFieldSkipEmpty_def)
  have t: "take 2 (agentRunRequest conversationAction modelDetails conversationId) = [0x0A, 0x00]"
    by (simp add: run)
  from z app m t run ne show ?thesis by (intro conjI)
qed

section \<open>Encoding of dynamic values\<close>

text \<open>
  Numbers, non-empty strings and booleans become a fixed64 field 2, a length-delimited field 3
  and a varint field 4.
\<close>

lemma enc_kinds:
  "encodeProtobufValue (JNumber d) = 0x11 # map (\<lambda>i. ucast (drop_bit (8 * i) d)) [0..<8]"
  "s \<noteq> [] \<Longrightarrow> encodeProtobufValue (JString s) = 0x1A # encodeVarint (length s) @ s"
  "encodeProtobufValue (JBool b) = [0x20, if b then 1 else 0]"
  by (simp_all add: encodeDoubleField_def encodeStringField'_def encodeBoolField_def fieldTag_def)

text \<open>
  Claim C5. \<open>encodeProtobufValue\<close> encodes \<open>null\<close> as \<open>encodeUint32Field 1 0\<close>, and that
  helper returns no bytes for the value zero: \<open>null\<close> has no marker field. The empty
  string is skipped in the same way by the string helper of that script. Both values encode
  to the empty byte array, also inside a list, so no decoder can give back every value.
\<close>

theorem encodeProtobufValue_null_and_empty_string:
  "encodeProtobufValue JNull = []
   \<and> encodeProtobufValue (JString []) = []
   \<and> encodeProtobufValue (JArray [JNull]) = encodeProtobufValue (JArray [JString []])
   \<and> \<not> (\<exists>dec. \<forall>v. dec (encodeProtobufValue v) = v)"
proof -
  have a: "encodeProtobufValue JNull = []"
    by (simp add: encodeUint32Field_def)
  have b: "encodeProtobufValue (JString []) = []"
    by (simp add: encodeStringField'_def)
  have c: "encodeProtobufValue (JArray [JNull]) = encodeProtobufValue (JArray [JString []])"
    by (simp add: encodeUint32Field_def encodeStringField'_def)
  have d: "\<not> (\<exists>dec. \<forall>v. dec (encodeProtobufValue v) = v)"
  proof
    assume "\<exists>dec. \<forall>v. dec (encodeProtobufValue v) = v"
    then obtain dec where dec: "\<And>v. dec (encodeProtobufValue v) = v" by blast
    have "dec (encodeProtobufValue JNull) = dec (encodeProtobufValue (JString []))"
      by (simp only: a b)
    then have "JNull = JString []" by (simp only: dec)
    then show False by simp
  qed
  from a b c d show ?thesis by (intro conjI)
qed

section \<open>Decoding messages\<close>

text \<open>
  One round of the decoder loop, for each kind of tag, and the rounds over fields written by
  the scripts' own encoders. A field number below 16 gives a one-byte tag.
\<close>

lemma decodeVarint_encodeVarint_at:
  "decodeVarint (pre @ encodeVarint v @ suf) (length pre) = (v, length (encodeVarint v))"
  using decodeVarint_loop_encodeVarint [of pre "length pre" 0 0 0 v suf]
  by (simp add: decodeVarint_def)

lemma tag_value:
  fixes n w :: nat
  assumes "w < 8"
  shows "push_bit 3 n OR w = 8 * n + w"
proof -
  have "w < 2 ^ 3" using assms by simp
  then have "w OR push_bit 3 n = w + n * 2 ^ 3"
    by (rule or_push_bit_add)
  then show ?thesis by (simp add: or.commute)
qed

lemma tag_fieldNumber: "w < 8 \<Longrightarrow> drop_bit 3 (8 * n + w) = (n::nat)"
  by (simp add: drop_bit_eq_div)

lemma tag_wireType: "w < 8 \<Longrightarrow> (8 * n + w) AND 0x7 = (w::nat)"
proof -
  assume w: "w < 8"
  have "(8 * n + w) AND mask 3 = (8 * n + w) mod 2 ^ 3"
    by (simp only: take_bit_eq_mask [symmetric] take_bit_eq_mod)
  moreover have "mask 3 = (7::nat)" by (simp add: mask_eq_exp_minus_1)
  ultimately show ?thesis using w by simp
qed

lemma fieldTag_varint:
  assumes "n < 16" and "w < 8"
  shows "[fieldTag n w] = encodeVarint (8 * n + w)"
proof -
  have "8 * n + w \<le> 127" using assms by simp
  then have "encodeVarint (8 * n + w) = [word_of_nat (8 * n + w)]"
    by (subst encodeVarint.simps) simp
  then show ?thesis
    using assms by (simp add: fieldTag_def tag_value)
qed

lemma slice_bytes_nat:
  "slice_bytes xs (int a) (int b) = take (b - a) (drop a xs)"
proof (cases "a \<le> length xs")
  case True
  then show ?thesis
    by (cases "b \<le> length xs") (auto simp: slice_bytes_def Let_def min_def nat_diff_distrib')
next
  case False
  then show ?thesis
    by (cases "b \<le> length xs") (auto simp: slice_bytes_def Let_def min_def)
qed


lemma parse_step_unknown:
  assumes "offset < length data" and "decodeVarint data offset = (tv, br)"
    and "tv AND 0x7 \<notin> {0, 1, 2, 5}"
  shows "parseProtoFields_loop data offset = []"
  using assms by (subst parseProtoFields_loop.simps) (simp add: Let_def)

lemma parse_step_length_delimited:
  assumes "offset < length data" and "decodeVarint data offset = (tv, br)"
    and "tv AND 0x7 = 2" and "decodeVarint data (offset + br) = (len, lbr)"
  shows "parseProtoFields_loop data offset
         = \<lparr>fieldNumber = drop_bit 3 tv, wireType = 2,
              fieldValue = Bytes (take len (drop (offset + br + lbr) data)),
              fieldOffset = offset, fieldLength = br + lbr + len\<rparr>
           # parseProtoFields_loop data (offset + br + lbr + len)"
  using assms
  by (subst parseProtoFields_loop.simps) (simp add: Let_def slice_bytes_nat del: of_nat_add)

lemma parse_step_varint:
  assumes "offset < length data" and "decodeVarint data offset = (tv, br)"
    and "tv AND 0x7 = 0" and "decodeVarint data (offset + br) = (v, vbr)"
  shows "parseProtoFields_loop data offset
         = \<lparr>fieldNumber = drop_bit 3 tv, wireType = 0, fieldValue = Varint v,
              fieldOffset = offset, fieldLength = br + vbr\<rparr>
           # parseProtoFields_loop data (offset + br + vbr)"
  using assms
  by (subst parseProtoFields_loop.simps) (simp add: Let_def)

lemma encodeVarint_nonempty: "encodeVarint v \<noteq> []"
  by (subst encodeVarint.simps) simp

lemma parse_step_fixed64:
  assumes "offset < length data" and "decodeVarint data offset = (tv, br)"
    and "tv AND 0x7 = 1"
  shows "parseProtoFields_loop data offset
         = \<lparr>fieldNumber = drop_bit 3 tv, wireType = 1,
              fieldValue = Bytes (take 8 (drop (offset + br) data)),
              fieldOffset = offset, fieldLength = 8\<rparr>
           # parseProtoFields_loop data (offset + br + 8)"
proof -
  have "slice_bytes data (int (offset + br)) (int (offset + br + 8)) = take 8 (drop (offset + br) data)"
    unfolding slice_bytes_nat by simp
  then show ?thesis
    using assms
    by (subst parseProtoFields_loop.simps) (simp add: Let_def del: of_nat_add)
qed

lemma parse_step_fixed32:
  assumes "offset < length data" and "decodeVarint data offset = (tv, br)"
    and "tv AND 0x7 = 5"
  shows "parseProtoFields_loop data offset
         = \<lparr>fieldNumber = drop_bit 3 tv, wireType = 5,
              fieldValue = Bytes (take 4 (drop (offset + br) data)),
              fieldOffset = offset, fieldLength = 4\<rparr>
           # parseProtoFields_loop data (offset + br + 4)"
proof -
  have "slice_bytes data (int (offset + br)) (int (offset + br + 4)) = take 4 (drop (offset + br) data)"
    unfolding slice_bytes_nat by simp
  then show ?thesis
    using assms
    by (subst parseProtoFields_loop.simps) (simp add: Let_def del: of_nat_add)
qed

lemma parse_at_end: "parseProtoFields_loop data (length data) = []"
  by (subst parseProtoFields_loop.simps) simp

lemma parse_unknown_varint_tag:
  assumes "w \<in> {3, 4, 6, 7}"
  shows "parseProtoFields_loop (pre @ encodeVarint (8 * k + w) @ rest) (length pre) = []"
proof -
  have w8: "w < 8" using assms by auto
  define tv where "tv = 8 * k + w"
  define data where "data = pre @ encodeVarint tv @ rest"
  have tag: "decodeVarint data (length pre) = (tv, length (encodeVarint tv))"
    unfolding data_def by (rule decodeVarint_encodeVarint_at)
  have lt: "length pre < length data"
    using encodeVarint_nonempty [of tv] by (simp add: data_def)
  have "tv AND 0x7 = w" unfolding tv_def using w8 by (rule tag_wireType)
  with assms have wt: "tv AND 0x7 \<notin> {0, 1, 2, 5}" by auto
  have "parseProtoFields_loop data (length pre) = []"
    using lt tag wt by (rule parse_step_unknown)
  then show ?thesis by (simp only: data_def tv_def)
qed


text \<open>A well-formed field anywhere in a buffer is decoded as it was written.\<close>

lemma parse_wire_field:
  assumes "well_formed_field (n, w, v)"
  shows "parseProtoFields_loop (pre @ wire_field n w v @ rest) (length pre)
         = \<lparr>fieldNumber = n, wireType = w, fieldValue = v, fieldOffset = length pre,
              fieldLength = (if w = 1 then 8 else if w = 5 then 4 else length (wire_field n w v))\<rparr>
           # parseProtoFields_loop (pre @ wire_field n w v @ rest)
               (length pre + length (wire_field n w v))"
proof -
  define tv where "tv = 8 * n + w"
  define tg where "tg = encodeVarint tv"
  define br where "br = length tg"
  define data where "data = pre @ wire_field n w v @ rest"
  have w8: "w < 8"
    using assms by (auto simp: well_formed_field_def split: field_value.splits)
  have wf: "wire_field n w v = tg @ (case v of Varint x \<Rightarrow> encodeVarint x
              | Bytes d \<Rightarrow> if w = 2 then encodeVarint (length d) @ d else d)"
    by (simp add: wire_field_def tg_def tv_def)
  have "decodeVarint (pre @ encodeVarint tv @ (drop br (wire_field n w v) @ rest)) (length pre)
        = (tv, length (encodeVarint tv))"
    by (rule decodeVarint_encodeVarint_at)
  moreover have "pre @ encodeVarint tv @ (drop br (wire_field n w v) @ rest) = data"
    by (simp add: data_def wf br_def tg_def)
  ultimately have tag: "decodeVarint data (length pre) = (tv, br)"
    by (simp add: br_def tg_def)
  have lt: "length pre < length data"
    using encodeVarint_nonempty [of tv] by (simp add: data_def wf tg_def)
  have wt: "tv AND 0x7 = w" unfolding tv_def using w8 by (rule tag_wireType)
  have fnum: "drop_bit 3 tv = n" unfolding tv_def using w8 by (rule tag_fieldNumber)
  show ?thesis
  proof (cases v)
    case (Varint x)
    with assms have w0: "w = 0" by (simp add: well_formed_field_def)
    define lv where "lv = length (encodeVarint x)"
    have wfv: "wire_field n w v = tg @ encodeVarint x"
      unfolding wf by (simp add: Varint)
    have d2: "data = (pre @ tg) @ encodeVarint x @ rest"
      by (simp add: data_def wfv)
    have "decodeVarint data (length (pre @ tg)) = (x, lv)"
      unfolding lv_def by (subst d2) (rule decodeVarint_encodeVarint_at)
    then have val: "decodeVarint data (length pre + br) = (x, lv)"
      by (simp add: br_def)
    have total: "length (wire_field n w v) = br + lv"
      by (simp add: wfv br_def lv_def)
    have "parseProtoFields_loop data (length pre)
         = \<lparr>fieldNumber = drop_bit 3 tv, wireType = 0, fieldValue = Varint x,
              fieldOffset = length pre, fieldLength = br + lv\<rparr>
           # parseProtoFields_loop data (length pre + br + lv)"
      using lt tag wt [unfolded w0] val by (rule parse_step_varint)
    then show ?thesis
      unfolding fnum data_def [symmetric] by (simp add: total [unfolded w0] w0 Varint [symmetric] add.assoc)
  next
    case (Bytes d)
    with assms consider "w = 2" "length d < 2 ^ 53" | "w = 1" "length d = 8" | "w = 5" "length d = 4"
      by (auto simp: well_formed_field_def)
    then show ?thesis
    proof cases
      case 1
      define lv where "lv = length (encodeVarint (length d))"
      have wfv: "wire_field n w v = tg @ encodeVarint (length d) @ d"
        unfolding wf by (simp add: Bytes 1)
      have d2: "data = (pre @ tg) @ encodeVarint (length d) @ (d @ rest)"
        by (simp add: data_def wfv)
      have "decodeVarint data (length (pre @ tg)) = (length d, lv)"
        unfolding lv_def by (subst d2) (rule decodeVarint_encodeVarint_at)
      then have len: "decodeVarint data (length pre + br) = (length d, lv)"
        by (simp add: br_def)
      have d3: "data = (pre @ tg @ encodeVarint (length d)) @ d @ rest"
        by (simp add: data_def wfv)
      have sl: "take (length d) (drop (length pre + br + lv) data) = d"
        unfolding d3 lv_def br_def by simp
      have total: "length (wire_field n w v) = br + lv + length d"
        by (simp add: wfv br_def lv_def)
      have "parseProtoFields_loop data (length pre)
         = \<lparr>fieldNumber = drop_bit 3 tv, wireType = 2,
              fieldValue = Bytes (take (length d) (drop (length pre + br + lv) data)),
              fieldOffset = length pre, fieldLength = br + lv + length d\<rparr>
           # parseProtoFields_loop data (length pre + br + lv + length d)"
        using lt tag wt [unfolded 1(1)] len by (rule parse_step_length_delimited)
      then show ?thesis
        unfolding fnum sl data_def [symmetric] by (simp add: total [unfolded 1(1)] 1(1) Bytes [symmetric] add.assoc)
    next
      case 2
      have wfv: "wire_field n w v = tg @ d"
        unfolding wf by (simp add: Bytes 2)
      have d3: "data = (pre @ tg) @ d @ rest"
        by (simp add: data_def wfv)
      have sl: "take 8 (drop (length pre + br) data) = d"
        unfolding d3 br_def using 2(2) by simp
      have total: "length (wire_field n w v) = br + 8"
        by (simp add: wfv br_def 2(2))
      have "parseProtoFields_loop data (length pre)
         = \<lparr>fieldNumber = drop_bit 3 tv, wireType = 1,
              fieldValue = Bytes (take 8 (drop (length pre + br) data)),
              fieldOffset = length pre, fieldLength = 8\<rparr>
           # parseProtoFields_loop data (length pre + br + 8)"
        using lt tag wt [unfolded 2(1)] by (rule parse_step_fixed64)
      then show ?thesis
        unfolding fnum sl data_def [symmetric] by (simp add: total [unfolded 2(1) One_nat_def] 2(1) Bytes [symmetric] add.assoc)
    next
      case 3
      have wfv: "wire_field n w v = tg @ d"
        unfolding wf by (simp add: Bytes 3)
      have d3: "data = (pre @ tg) @ d @ rest"
        by (simp add: data_def wfv)
      have sl: "take 4 (drop (length pre + br) data) = d"
        unfolding d3 br_def using 3(2) by simp
      have total: "length (wire_field n w v) = br + 4"
        by (simp add: wfv br_def 3(2))
      have "parseProtoFields_loop data (length pre)
         = \<lparr>fieldNumber = drop_bit 3 tv, wireType = 5,
              fieldValue = Bytes (take 4 (drop (length pre + br) data)),
              fieldOffset = length pre, fieldLength = 4\<rparr>
           # parseProtoFields_loop data (length pre + br + 4)"
        using lt tag wt [unfolded 3(1)] by (rule parse_step_fixed32)
      then show ?thesis
        unfolding fnum sl data_def [symmetric] by (simp add: total [unfolded 3(1)] 3(1) Bytes [symmetric] add.assoc)
    qed
  qed
qed


text \<open>
  For a field number below 16 the fields of wire type 2, 0 and 1 are the bytes the scripts'
  encoders write.
\<close>

lemma wire_field_encoders:
  assumes "n < 16"
  shows "wire_field n 2 (Bytes d) = encodeMessageField n d"
    and "wire_field n 0 (Varint x) = encodeInt64Field n x"
    and "wire_field n 1 (Bytes (map (\<lambda>i. ucast (drop_bit (8 * i) bits)) [0..<8])) = encodeDoubleField n bits"
  using fieldTag_varint [OF assms, of 2, symmetric] fieldTag_varint [OF assms, of 0, symmetric]
    fieldTag_varint [OF assms, of 1, symmetric]
  by (simp_all add: wire_field_def encodeMessageField_def encodeInt64Field_def encodeDoubleField_def)

text \<open>
  A run of well-formed fields is decoded field by field, whatever follows, as long as the
  decoder returns nothing for what follows; and then the result is that of the run alone.
\<close>

lemma parse_wire_fields:
  assumes "\<forall>f \<in> set fs. well_formed_field f"
    and "\<And>pre'. parseProtoFields_loop (pre' @ after) (length pre') = []"
  shows "map (\<lambda>f. (fieldNumber f, wireType f, fieldValue f, fieldLength f))
           (parseProtoFields_loop
              (pre @ concatBytes (map (\<lambda>(n, w, v). wire_field n w v) fs) @ after) (length pre))
         = map (\<lambda>(n, w, v). (n, w, v, if w = 1 then 8 else if w = 5 then 4
                                        else length (wire_field n w v))) fs"
  using assms(1)
proof (induction fs arbitrary: pre)
  case Nil
  show ?case
    using assms(2) [of pre] by (simp add: concatBytes_def)
next
  case (Cons f fs)
  obtain n w v where f: "f = (n, w, v)" by (cases f)
  have wf: "well_formed_field (n, w, v)" using Cons.prems by (simp add: f)
  have rest_ok: "\<forall>f \<in> set fs. well_formed_field f" using Cons.prems by simp
  define rest where "rest = concatBytes (map (\<lambda>(n, w, v). wire_field n w v) fs) @ after"
  define e where "e = wire_field n w v"
  have step: "parseProtoFields_loop (pre @ e @ rest) (length pre)
         = \<lparr>fieldNumber = n, wireType = w, fieldValue = v, fieldOffset = length pre,
              fieldLength = (if w = 1 then 8 else if w = 5 then 4 else length e)\<rparr>
           # parseProtoFields_loop (pre @ e @ rest) (length pre + length e)"
    unfolding e_def using wf by (rule parse_wire_field)
  have ih: "map (\<lambda>f. (fieldNumber f, wireType f, fieldValue f, fieldLength f))
           (parseProtoFields_loop ((pre @ e) @ rest) (length (pre @ e)))
         = map (\<lambda>(n, w, v). (n, w, v, if w = 1 then 8 else if w = 5 then 4
                                        else length (wire_field n w v))) fs"
    unfolding rest_def using rest_ok by (rule Cons.IH)
  have "map (\<lambda>f. (fieldNumber f, wireType f, fieldValue f, fieldLength f))
           (parseProtoFields_loop (pre @ e @ rest) (length pre))
         = (n, w, v, if w = 1 then 8 else if w = 5 then 4 else length e)
           # map (\<lambda>(n, w, v). (n, w, v, if w = 1 then 8 else if w = 5 then 4
                                        else length (wire_field n w v))) fs"
    using ih by (simp add: step)
  then show ?case
    by (simp add: f e_def rest_def concatBytes_def)
qed

lemma parse_wire_fields_tail:
  assumes "\<forall>f \<in> set fs. well_formed_field f"
    and "\<And>pre'. parseProtoFields_loop (pre' @ after) (length pre') = []"
  shows "parseProtoFields_loop
           (pre @ concatBytes (map (\<lambda>(n, w, v). wire_field n w v) fs) @ after) (length pre)
         = parseProtoFields_loop
             (pre @ concatBytes (map (\<lambda>(n, w, v). wire_field n w v) fs)) (length pre)"
  using assms(1)
proof (induction fs arbitrary: pre)
  case Nil
  show ?case
    using assms(2) [of pre] parse_at_end [of pre] by (simp add: concatBytes_def)
next
  case (Cons f fs)
  obtain n w v where f: "f = (n, w, v)" by (cases f)
  have wf: "well_formed_field (n, w, v)" using Cons.prems by (simp add: f)
  have rest_ok: "\<forall>f \<in> set fs. well_formed_field f" using Cons.prems by simp
  define msg where "msg = concatBytes (map (\<lambda>(n, w, v). wire_field n w v) fs)"
  define e where "e = wire_field n w v"
  have s1: "parseProtoFields_loop (pre @ e @ (msg @ after)) (length pre)
         = \<lparr>fieldNumber = n, wireType = w, fieldValue = v, fieldOffset = length pre,
              fieldLength = (if w = 1 then 8 else if w = 5 then 4 else length e)\<rparr>
           # parseProtoFields_loop (pre @ e @ (msg @ after)) (length pre + length e)"
    unfolding e_def using wf by (rule parse_wire_field)
  have s2: "parseProtoFields_loop (pre @ e @ msg) (length pre)
         = \<lparr>fieldNumber = n, wireType = w, fieldValue = v, fieldOffset = length pre,
              fieldLength = (if w = 1 then 8 else if w = 5 then 4 else length e)\<rparr>
           # parseProtoFields_loop (pre @ e @ msg) (length pre + length e)"
    unfolding e_def using wf by (rule parse_wire_field)
  have "parseProtoFields_loop ((pre @ e) @ msg @ after) (length (pre @ e))
        = parseProtoFields_loop ((pre @ e) @ msg) (length (pre @ e))"
    unfolding msg_def using rest_ok by (rule Cons.IH)
  then have ih: "parseProtoFields_loop (pre @ e @ (msg @ after)) (length pre + length e)
        = parseProtoFields_loop (pre @ e @ msg) (length pre + length e)"
    by simp
  have "parseProtoFields_loop (pre @ e @ (msg @ after)) (length pre)
        = parseProtoFields_loop (pre @ e @ msg) (length pre)"
    by (simp only: s1 s2 ih)
  then show ?case
    by (simp add: f e_def msg_def concatBytes_def)
qed

text \<open>
  Claim C1, as stated, fails. The bytes \<open>08 01 0B 10 02\<close> are the varint field 1, a tag
  of wire type 3, and the varint field 2. The decoder returns field 1 alone: the trailing
  field, which decodes on its own, is dropped, and the result is an ordinary list; the
  function has no error to surface.
\<close>

theorem parseProtoFields_drops_trailing_fields:
  "parseProtoFields [0x08, 0x01, 0x0B, 0x10, 0x02]
     = [\<lparr>fieldNumber = 1, wireType = 0, fieldValue = Varint 1, fieldOffset = 0, fieldLength = 2\<rparr>]
   \<and> parseProtoFields [0x10, 0x02]
     = [\<lparr>fieldNumber = 2, wireType = 0, fieldValue = Varint 2, fieldOffset = 0, fieldLength = 2\<rparr>]"
  by code_simp

text \<open>
  Claim C1, amended. \<open>parseProtoFields\<close> is a total function that returns a list of
  fields and never an error. A message made of well-formed fields of the wire types 0, 1, 2
  and 5 decodes to exactly these fields, in order, with their numbers, wire types, values
  and recorded lengths. When such a message is followed by a tag of wire type 3, 4, 6 or 7
  and by any bytes at all, the decoder returns exactly what it returns for the message
  alone: it stops at that tag and leaves everything after it undecoded.
\<close>

theorem parseProtoFields_known_and_unknown_wire_types:
  assumes "\<forall>f \<in> set fs. well_formed_field f" and "u \<in> {3, 4, 6, 7}"
  shows "map (\<lambda>f. (fieldNumber f, wireType f, fieldValue f, fieldLength f))
           (parseProtoFields (concatBytes (map (\<lambda>(n, w, v). wire_field n w v) fs)))
         = map (\<lambda>(n, w, v). (n, w, v, if w = 1 then 8 else if w = 5 then 4
                                        else length (wire_field n w v))) fs
       \<and> parseProtoFields
           (concatBytes (map (\<lambda>(n, w, v). wire_field n w v) fs) @ encodeVarint (8 * k + u) @ rest)
         = parseProtoFields (concatBytes (map (\<lambda>(n, w, v). wire_field n w v) fs))"
proof -
  define msg where "msg = concatBytes (map (\<lambda>(n, w, v). wire_field n w v) fs)"
  define expected where "expected = map (\<lambda>(n, w, v). (n, w, v, if w = 1 then 8 else if w = 5 then 4
                                        else length (wire_field n w v))) fs"
  have "map (\<lambda>f. (fieldNumber f, wireType f, fieldValue f, fieldLength f))
           (parseProtoFields_loop ([] @ msg @ []) (length ([]::byte list))) = expected"
    unfolding msg_def expected_def using assms(1)
  proof (rule parse_wire_fields)
    show "parseProtoFields_loop (pre' @ []) (length pre') = []" for pre'
      using parse_at_end [of pre'] by simp
  qed
  then have a: "map (\<lambda>f. (fieldNumber f, wireType f, fieldValue f, fieldLength f))
           (parseProtoFields msg) = expected"
    by (simp add: parseProtoFields_def)
  have "parseProtoFields_loop ([] @ msg @ encodeVarint (8 * k + u) @ rest) (length ([]::byte list))
        = parseProtoFields_loop ([] @ msg) (length ([]::byte list))"
    unfolding msg_def using assms(1)
  proof (rule parse_wire_fields_tail)
    show "parseProtoFields_loop (pre' @ encodeVarint (8 * k + u) @ rest) (length pre') = []" for pre'
      using assms(2) by (rule parse_unknown_varint_tag)
  qed
  then have b: "parseProtoFields (msg @ encodeVarint (8 * k + u) @ rest) = parseProtoFields msg"
    by (simp add: parseProtoFields_def)
  from a b show ?thesis
    unfolding msg_def expected_def by (rule conjI)
qed

theorem parseProtoFields_known_and_unknown_wire_types_witness:
  "map (\<lambda>f. (fieldNumber f, wireType f, fieldValue f, fieldLength f))
     (parseProtoFields [0x0A, 0x01, 0x41, 0x08, 0x07, 0x11, 1, 2, 3, 4, 5, 6, 7, 8, 0x1D, 9, 8, 7, 6])
   = [(1, 2, Bytes [0x41], 3), (1, 0, Varint 7, 2),
      (2, 1, Bytes [1, 2, 3, 4, 5, 6, 7, 8], 8), (3, 5, Bytes [9, 8, 7, 6], 4)]
   \<and> parseProtoFields
       [0x0A, 0x01, 0x41, 0x08, 0x07, 0x11, 1, 2, 3, 4, 5, 6, 7, 8, 0x1D, 9, 8, 7, 6, 0x0B, 0x10, 0x02]
     = parseProtoFields [0x0A, 0x01, 0x41, 0x08, 0x07, 0x11, 1, 2, 3, 4, 5, 6, 7, 8, 0x1D, 9, 8, 7, 6]"
proof -
  define fs :: "(nat \<times> nat \<times> field_value) list" where
    "fs = [(1, 2, Bytes [0x41]), (1, 0, Varint 7),
           (2, 1, Bytes [1, 2, 3, 4, 5, 6, 7, 8]), (3, 5, Bytes [9, 8, 7, 6])]"
  have v: "encodeVarint 10 = [0x0A]" "encodeVarint 8 = [0x08]" "encodeVarint 17 = [0x11]"
    "encodeVarint 29 = [0x1D]" "encodeVarint 11 = [0x0B]" "encodeVarint (Suc 0) = [0x01]"
    "encodeVarint 7 = [0x07]"
    by (subst encodeVarint.simps, simp)+
  have msg: "concatBytes (map (\<lambda>(n, w, v). wire_field n w v) fs)
        = [0x0A, 0x01, 0x41, 0x08, 0x07, 0x11, 1, 2, 3, 4, 5, 6, 7, 8, 0x1D, 9, 8, 7, 6]"
    by (simp add: fs_def concatBytes_def wire_field_def v)
  have tag: "encodeVarint (8 * 1 + 3) = [0x0B]"
    by (simp add: v)
  have lens: "map (\<lambda>(n, w, v). (n, w, v, if w = 1 then 8 else if w = 5 then 4
                                        else length (wire_field n w v))) fs
        = [(1, 2, Bytes [0x41], 3), (1, 0, Varint 7, 2),
           (2, 1, Bytes [1, 2, 3, 4, 5, 6, 7, 8], 8), (3, 5, Bytes [9, 8, 7, 6], 4)]"
    by (simp add: fs_def wire_field_def v)
  have h1: "\<forall>f \<in> set fs. well_formed_field f"
    by (simp add: fs_def well_formed_field_def)
  have h2: "(3::nat) \<in> {3, 4, 6, 7}" by simp
  note t = parseProtoFields_known_and_unknown_wire_types [OF h1 h2, of 1 "[0x10, 0x02]", unfolded msg tag lens]
  from t show ?thesis by simp
qed

section \<open>Frame reassembly\<close>

text \<open>
  The four length bytes of a frame, combined with shifts as the reader does, are the low 32
  bits of the length; read as a signed number they are the length itself as long as it is
  below \<open>2^31\<close>.
\<close>

lemma be32_word:
  "push_bit 24 (ucast (word_of_nat (drop_bit 24 n) :: byte))
   OR push_bit 16 (ucast (word_of_nat (drop_bit 16 n) :: byte))
   OR push_bit 8 (ucast (word_of_nat (drop_bit 8 n) :: byte))
   OR ucast (word_of_nat n :: byte) = (word_of_nat n :: 32 word)"
  (is "?lhs = ?rhs")
proof (rule bit_word_eqI)
  fix i
  assume "i < LENGTH(32)"
  then have i: "i < 32" by simp
  consider "i < 8" | "8 \<le> i" "i < 16" | "16 \<le> i" "i < 24" | "24 \<le> i" "i < 32"
    using i by linarith
  then show "bit ?lhs i = bit ?rhs i"
  proof cases
    case 1
    then show ?thesis by (simp add: bit_simps)
  next
    case 2
    then have "i - 8 < 8" "i - 8 < 32" by linarith+
    with 2 show ?thesis by (auto simp: bit_simps)
  next
    case 3
    then have "i - 16 < 8" "i - 16 < 32" by linarith+
    with 3 show ?thesis by (auto simp: bit_simps)
  next
    case 4
    then have "i - 24 < 8" "i - 24 < 32" by linarith+
    with 4 show ?thesis by (auto simp: bit_simps)
  qed
qed

lemma sint_word_of_nat_32:
  assumes "n < 2 ^ 31"
  shows "sint (word_of_nat n :: 32 word) = int n"
proof -
  have "sint (word_of_int (int n) :: 32 word) = signed_take_bit (LENGTH(32) - 1) (int n)"
    by (rule sint_sbintrunc')
  also have "\<dots> = int n"
    using assms by (simp add: signed_take_bit_int_eq_self)
  finally show ?thesis by simp
qed


text \<open>Reading the header of a frame that lies in the buffer, whole or cut after its header.\<close>

lemma length_framedBody: "length (framedBody fl body) = 5 + length body"
  by (simp add: framedBody_def Let_def)

lemma byte_at_append:
  assumes "k < length xs"
  shows "byte_at (pre @ xs @ rest) (int (length pre) + int k) = Some (xs ! k)"
proof -
  have "nat (int (length pre) + int k) = length pre + k" by simp
  then show ?thesis
    using assms by (simp add: byte_at_def nth_append del: of_nat_add)
qed

lemma header_read:
  assumes "valid_frame f" and "5 \<le> k"
  shows "byte_at (pre @ take k (framedBody (flags f) (payload f)) @ rest) (int (length pre))
         = Some (flags f)"
    and "frame_length (pre @ take k (framedBody (flags f) (payload f)) @ rest) (int (length pre))
         = int (length (payload f))"
proof -
  define n where "n = length (payload f)"
  define hdr :: "byte list" where
    "hdr = [flags f, word_of_nat (drop_bit 24 n), word_of_nat (drop_bit 16 n),
            word_of_nat (drop_bit 8 n), word_of_nat n]"
  define buf where "buf = pre @ take k (framedBody (flags f) (payload f)) @ rest"
  have "framedBody (flags f) (payload f) = hdr @ payload f"
    by (simp add: framedBody_def Let_def hdr_def n_def)
  moreover have "length hdr = 5" by (simp add: hdr_def)
  ultimately have "take k (framedBody (flags f) (payload f)) = hdr @ take (k - 5) (payload f)"
    using assms(2) by simp
  then have buf: "buf = pre @ hdr @ (take (k - 5) (payload f) @ rest)"
    by (simp add: buf_def)
  have at: "byte_at buf (int (length pre) + int j) = Some (hdr ! j)" if "j < 5" for j
    unfolding buf using that by (intro byte_at_append) (simp add: hdr_def)
  have b0: "byte_at buf (int (length pre)) = Some (flags f)"
    using at [of 0] by (simp add: hdr_def)
  have b1: "byte_at buf (int (length pre) + 1) = Some (word_of_nat (drop_bit 24 n))"
    using at [of 1] by (simp add: hdr_def)
  have b2: "byte_at buf (int (length pre) + 2) = Some (word_of_nat (drop_bit 16 n))"
    using at [of 2] by (simp add: hdr_def)
  have b3: "byte_at buf (int (length pre) + 3) = Some (word_of_nat (drop_bit 8 n))"
    using at [of 3] by (simp add: hdr_def)
  have b4: "byte_at buf (int (length pre) + 4) = Some (word_of_nat n)"
    using at [of 4] by (simp add: hdr_def)
  have n: "n < 2 ^ 31"
    using assms(1) by (simp add: valid_frame_def n_def)
  have "frame_length buf (int (length pre)) = sint (word_of_nat n :: 32 word)"
    unfolding frame_length_def b1 b2 b3 b4 to_int32_def option.case be32_word ..
  also have "\<dots> = int n"
    using n by (rule sint_word_of_nat_32)
  finally have len: "frame_length buf (int (length pre)) = int n" .
  from b0 show "byte_at (pre @ take k (framedBody (flags f) (payload f)) @ rest) (int (length pre))
         = Some (flags f)"
    by (simp only: buf_def)
  from len show "frame_length (pre @ take k (framedBody (flags f) (payload f)) @ rest) (int (length pre))
         = int (length (payload f))"
    by (simp only: buf_def n_def)
qed

text \<open>
  The loop takes a whole frame and goes on behind it; it stops, without a frame and without
  moving, at a frame that is cut short, be it inside the header or inside the payload.
\<close>

lemma frame_loop_complete:
  assumes "valid_frame f"
  shows "frame_loop (pre @ framedBody (flags f) (payload f) @ rest) (int (length pre))
         = Option.bind
             (frame_loop (pre @ framedBody (flags f) (payload f) @ rest)
                (int (length pre) + 5 + int (length (payload f))))
             (\<lambda>(frames, offset'). Some (f # frames, offset'))"
proof -
  define buf where "buf = pre @ framedBody (flags f) (payload f) @ rest"
  define n where "n = length (payload f)"
  define p where "p = int (length pre)"
  have whole: "take (5 + length (payload f)) (framedBody (flags f) (payload f))
               = framedBody (flags f) (payload f)"
    by (simp add: length_framedBody)
  have fl: "byte_at buf p = Some (flags f)"
    using header_read(1) [OF assms, of "5 + length (payload f)" pre rest]
    unfolding whole by (simp add: buf_def p_def)
  have len: "frame_length buf p = int n"
    using header_read(2) [OF assms, of "5 + length (payload f)" pre rest]
    unfolding whole by (simp add: buf_def p_def n_def)
  have size: "int (length buf) = p + 5 + int n + int (length rest)"
    by (simp add: buf_def p_def n_def length_framedBody)
  have "slice_bytes buf (int (length pre + 5)) (int (length pre + 5 + n)) = payload f"
    unfolding slice_bytes_nat by (simp add: buf_def framedBody_def Let_def n_def)
  then have sl: "slice_bytes buf (p + 5) (p + 5 + int n) = payload f"
    by (simp add: p_def)
  have f: "\<lparr>flags = flags f, payload = payload f\<rparr> = f" by simp
  have "frame_loop buf p
         = Option.bind (frame_loop buf (p + 5 + int n))
             (\<lambda>(frames, offset'). Some (f # frames, offset'))"
    by (subst frame_loop.simps) (simp add: fl len size sl f Let_def)
  then show ?thesis
    by (simp only: buf_def p_def n_def)
qed

lemma frame_loop_incomplete:
  assumes "valid_frame g" and "k < length (framedBody (flags g) (payload g))"
  shows "frame_loop (pre @ take k (framedBody (flags g) (payload g))) (int (length pre))
         = Some ([], int (length pre))"
proof (cases "k < 5")
  case True
  then have "\<not> int (length pre) + 5 \<le> int (length (pre @ take k (framedBody (flags g) (payload g))))"
    by simp
  then show ?thesis
    by (subst frame_loop.simps) (simp only: if_False)
next
  case False
  define buf where "buf = pre @ take k (framedBody (flags g) (payload g))"
  define p where "p = int (length pre)"
  have k5: "5 \<le> k" using False by simp
  have len: "frame_length buf p = int (length (payload g))"
    using header_read(2) [OF assms(1) k5, of pre "[]"] by (simp add: buf_def p_def)
  have size: "int (length buf) = p + int k"
    using assms(2) by (simp add: buf_def p_def)
  have short: "int k < 5 + int (length (payload g))"
    using assms(2) by (simp add: length_framedBody)
  have "frame_loop buf p = Some ([], p)"
    using k5 short by (subst frame_loop.simps) (simp add: len size Let_def)
  then show ?thesis
    by (simp only: buf_def p_def)
qed

lemma encode_frames_Cons:
  "encode_frames (f # fs) = framedBody (flags f) (payload f) @ encode_frames fs"
  by (simp add: encode_frames_def)

lemma frame_loop_frames:
  assumes "\<forall>f \<in> set fs. valid_frame f"
    and "valid_frame g" and "k < length (framedBody (flags g) (payload g))"
  shows "frame_loop (pre @ encode_frames fs @ take k (framedBody (flags g) (payload g)))
           (int (length pre))
         = Some (fs, int (length pre) + int (length (encode_frames fs)))"
  using assms(1)
proof (induction fs arbitrary: pre)
  case Nil
  show ?case
    using frame_loop_incomplete [OF assms(2,3), of pre] by (simp add: encode_frames_def)
next
  case (Cons f fs)
  define tl where "tl = encode_frames fs @ take k (framedBody (flags g) (payload g))"
  define e where "e = framedBody (flags f) (payload f)"
  have vf: "valid_frame f" and vfs: "\<forall>f \<in> set fs. valid_frame f"
    using Cons.prems by simp_all
  have step: "frame_loop (pre @ e @ tl) (int (length pre))
         = Option.bind (frame_loop (pre @ e @ tl) (int (length pre) + 5 + int (length (payload f))))
             (\<lambda>(frames, offset'). Some (f # frames, offset'))"
    unfolding e_def using vf by (rule frame_loop_complete)
  have le: "int (length (pre @ e)) = int (length pre) + 5 + int (length (payload f))"
    by (simp add: e_def length_framedBody)
  have "frame_loop ((pre @ e) @ tl) (int (length (pre @ e)))
        = Some (fs, int (length (pre @ e)) + int (length (encode_frames fs)))"
    unfolding tl_def using vfs by (rule Cons.IH)
  then have ih: "frame_loop (pre @ e @ tl) (int (length pre) + 5 + int (length (payload f)))
        = Some (fs, int (length pre) + 5 + int (length (payload f)) + int (length (encode_frames fs)))"
    by (simp only: le append_assoc)
  have "frame_loop (pre @ e @ tl) (int (length pre))
        = Some (f # fs, int (length pre) + int (length (encode_frames (f # fs))))"
    unfolding step ih by (simp add: encode_frames_Cons length_framedBody)
  then show ?case
    by (simp add: encode_frames_Cons e_def tl_def)
qed


lemma process_chunk_frames:
  assumes "\<forall>f \<in> set fs. valid_frame f"
    and "valid_frame g" and "k < length (framedBody (flags g) (payload g))"
    and "fullBuffer @ v = encode_frames fs @ take k (framedBody (flags g) (payload g))"
  shows "process_chunk fullBuffer v = Some (fs, take k (framedBody (flags g) (payload g)))"
proof -
  define tail where "tail = take k (framedBody (flags g) (payload g))"
  have loop: "frame_loop (encode_frames fs @ tail) 0 = Some (fs, int (length (encode_frames fs)))"
    using frame_loop_frames [OF assms(1,2,3), of "[]"] by (simp add: tail_def)
  have "slice_bytes (encode_frames fs @ tail) (int (length (encode_frames fs)))
          (int (length (encode_frames fs @ tail))) = tail"
    unfolding slice_bytes_nat by simp
  then show ?thesis
    using loop by (simp add: process_chunk_def assms(4) tail_def [symmetric] Let_def)
qed

text \<open>
  Every prefix of a stream of frames is a number of whole frames followed by a proper
  prefix of the next frame, or by nothing when no frame is left.
\<close>

lemma prefix_of_frames:
  assumes "p @ s = encode_frames fs"
  shows "\<exists>fs1 fs2 k. fs = fs1 @ fs2
           \<and> p = encode_frames fs1 @ (case fs2 of [] \<Rightarrow> [] | g # _ \<Rightarrow> take k (framedBody (flags g) (payload g)))
           \<and> (case fs2 of [] \<Rightarrow> True | g # _ \<Rightarrow> k < length (framedBody (flags g) (payload g)))"
  using assms
proof (induction fs arbitrary: p s)
  case Nil
  then have "p = []" by (simp add: encode_frames_def)
  then have "[] = [] @ ([]::WireFrame list)
           \<and> p = encode_frames [] @ (case ([]::WireFrame list) of [] \<Rightarrow> [] | g # _ \<Rightarrow> take 0 (framedBody (flags g) (payload g)))
           \<and> (case ([]::WireFrame list) of [] \<Rightarrow> True | g # _ \<Rightarrow> 0 < length (framedBody (flags g) (payload g)))"
    by (simp add: encode_frames_def)
  then show ?case by blast
next
  case (Cons f fs)
  define e where "e = framedBody (flags f) (payload f)"
  have ps: "p @ s = e @ encode_frames fs"
    using Cons.prems by (simp add: encode_frames_Cons e_def)
  show ?case
  proof (cases "length p < length e")
    case True
    from ps have "take (length p) (p @ s) = take (length p) (e @ encode_frames fs)" by simp
    with True have p: "p = take (length p) e" by simp
    have "f # fs = [] @ (f # fs)
           \<and> p = encode_frames [] @ (case f # fs of [] \<Rightarrow> [] | g # _ \<Rightarrow> take (length p) (framedBody (flags g) (payload g)))
           \<and> (case f # fs of [] \<Rightarrow> True | g # _ \<Rightarrow> length p < length (framedBody (flags g) (payload g)))"
      using True p by (simp add: encode_frames_def e_def)
    then show ?thesis by blast
  next
    case False
    then have le: "length e \<le> length p" by simp
    from ps have "take (length e) (p @ s) = take (length e) (e @ encode_frames fs)" by simp
    with le have te: "take (length e) p = e" by simp
    define p' where "p' = drop (length e) p"
    have p: "p = e @ p'"
      using te by (metis append_take_drop_id p'_def)
    with ps have "p' @ s = encode_frames fs" by simp
    then obtain fs1 fs2 k where ih: "fs = fs1 @ fs2"
        "p' = encode_frames fs1 @ (case fs2 of [] \<Rightarrow> [] | g # _ \<Rightarrow> take k (framedBody (flags g) (payload g)))"
        "(case fs2 of [] \<Rightarrow> True | g # _ \<Rightarrow> k < length (framedBody (flags g) (payload g)))"
      using Cons.IH by blast
    have "f # fs = (f # fs1) @ fs2
           \<and> p = encode_frames (f # fs1) @ (case fs2 of [] \<Rightarrow> [] | g # _ \<Rightarrow> take k (framedBody (flags g) (payload g)))
           \<and> (case fs2 of [] \<Rightarrow> True | g # _ \<Rightarrow> k < length (framedBody (flags g) (payload g)))"
      using ih p by (simp add: encode_frames_Cons e_def)
    then show ?thesis by blast
  qed
qed

lemma encode_frames_append:
  "encode_frames (fs1 @ fs2) = encode_frames fs1 @ encode_frames fs2"
  by (simp add: encode_frames_def)

text \<open>A proper prefix of the first frame is not the whole rest of the stream.\<close>

lemma pending_is_all:
  assumes "(case fs2 of [] \<Rightarrow> [] | g # _ \<Rightarrow> take k (framedBody (flags g) (payload g))) = encode_frames fs2"
    and "(case fs2 of [] \<Rightarrow> True | g # _ \<Rightarrow> k < length (framedBody (flags g) (payload g)))"
  shows "fs2 = []"
proof (cases fs2)
  case Nil
  then show ?thesis .
next
  case (Cons g gs)
  with assms have "take k (framedBody (flags g) (payload g)) = framedBody (flags g) (payload g) @ encode_frames gs"
    and k: "k < length (framedBody (flags g) (payload g))"
    by (simp_all add: encode_frames_Cons)
  then have "length (take k (framedBody (flags g) (payload g)))
      = length (framedBody (flags g) (payload g) @ encode_frames gs)" by simp
  with k have False by simp
  then show ?thesis ..
qed

lemma process_chunk_prefix:
  assumes "\<forall>f \<in> set fs. valid_frame f" and "(fullBuffer @ v) @ s = encode_frames fs"
  shows "\<exists>fs1 fs2 k. fs = fs1 @ fs2
           \<and> process_chunk fullBuffer v
               = Some (fs1, case fs2 of [] \<Rightarrow> [] | g # _ \<Rightarrow> take k (framedBody (flags g) (payload g)))
           \<and> (case fs2 of [] \<Rightarrow> True | g # _ \<Rightarrow> k < length (framedBody (flags g) (payload g)))
           \<and> fullBuffer @ v = encode_frames fs1 @ (case fs2 of [] \<Rightarrow> [] | g # _ \<Rightarrow> take k (framedBody (flags g) (payload g)))"
proof -
  obtain fs1 fs2 k where d: "fs = fs1 @ fs2"
      "fullBuffer @ v = encode_frames fs1 @ (case fs2 of [] \<Rightarrow> [] | g # _ \<Rightarrow> take k (framedBody (flags g) (payload g)))"
      "(case fs2 of [] \<Rightarrow> True | g # _ \<Rightarrow> k < length (framedBody (flags g) (payload g)))"
    using prefix_of_frames [OF assms(2)] by blast
  have v1: "\<forall>f \<in> set fs1. valid_frame f"
    using assms(1) d(1) by simp
  have "process_chunk fullBuffer v
        = Some (fs1, case fs2 of [] \<Rightarrow> [] | g # _ \<Rightarrow> take k (framedBody (flags g) (payload g)))"
  proof (cases fs2)
    case Nil
    define g0 where "g0 = \<lparr>flags = 0, payload = []\<rparr>"
    have vg: "valid_frame g0" by (simp add: valid_frame_def g0_def)
    have k0: "0 < length (framedBody (flags g0) (payload g0))" by (simp add: length_framedBody)
    have "fullBuffer @ v = encode_frames fs1 @ take 0 (framedBody (flags g0) (payload g0))"
      using d(2) Nil by simp
    with v1 vg k0 have "process_chunk fullBuffer v = Some (fs1, take 0 (framedBody (flags g0) (payload g0)))"
      by (rule process_chunk_frames)
    then show ?thesis using Nil by simp
  next
    case (Cons g gs)
    have vg: "valid_frame g" using assms(1) d(1) Cons by simp
    have k: "k < length (framedBody (flags g) (payload g))" using d(3) Cons by simp
    have "fullBuffer @ v = encode_frames fs1 @ take k (framedBody (flags g) (payload g))"
      using d(2) Cons by simp
    with v1 vg k have "process_chunk fullBuffer v = Some (fs1, take k (framedBody (flags g) (payload g)))"
      by (rule process_chunk_frames)
    then show ?thesis using Cons by simp
  qed
  with d show ?thesis by blast
qed

text \<open>Reassembly over any number of chunks, from a buffer that holds the start of a frame.\<close>

lemma reassemble_frames:
  assumes "\<forall>f \<in> set fs. valid_frame f"
    and "fullBuffer @ concat reads = encode_frames fs"
    and "fullBuffer = (case fs of [] \<Rightarrow> [] | g # _ \<Rightarrow> take k (framedBody (flags g) (payload g)))"
    and "(case fs of [] \<Rightarrow> True | g # _ \<Rightarrow> k < length (framedBody (flags g) (payload g)))"
  shows "reassemble fullBuffer reads = Some (fs, [])"
  using assms
proof (induction reads arbitrary: fs fullBuffer k)
  case Nil
  from Nil.prems(2) have "fullBuffer = encode_frames fs"
    by simp
  with Nil.prems(3) have "(case fs of [] \<Rightarrow> [] | g # _ \<Rightarrow> take k (framedBody (flags g) (payload g))) = encode_frames fs"
    by (rule subst)
  then have fs: "fs = []" using Nil.prems(4) by (rule pending_is_all)
  with Nil.prems(3) have "fullBuffer = []" by simp
  with fs show ?case by simp
next
  case (Cons v reads)
  have "(fullBuffer @ v) @ concat reads = encode_frames fs"
    using Cons.prems(2) by simp
  from process_chunk_prefix [OF Cons.prems(1) this]
  obtain fs1 fs2 k' where d: "fs = fs1 @ fs2"
      "process_chunk fullBuffer v
         = Some (fs1, case fs2 of [] \<Rightarrow> [] | g # _ \<Rightarrow> take k' (framedBody (flags g) (payload g)))"
      "(case fs2 of [] \<Rightarrow> True | g # _ \<Rightarrow> k' < length (framedBody (flags g) (payload g)))"
      "fullBuffer @ v = encode_frames fs1 @ (case fs2 of [] \<Rightarrow> [] | g # _ \<Rightarrow> take k' (framedBody (flags g) (payload g)))"
    by (elim exE conjE)
  define buf' where "buf' = (case fs2 of [] \<Rightarrow> [] | g # _ \<Rightarrow> take k' (framedBody (flags g) (payload g)))"
  have pc: "process_chunk fullBuffer v = Some (fs1, buf')"
    using d(2) by (simp only: buf'_def)
  have step: "reassemble fullBuffer (v # reads)
        = (case reassemble buf' reads of
             None \<Rightarrow> None
           | Some (later, final) \<Rightarrow> Some (fs1 @ later, final))"
    by (simp only: reassemble.simps(2) pc option.case prod.case)
  have "fullBuffer @ v @ concat reads = encode_frames fs1 @ encode_frames fs2"
    using Cons.prems(2) by (simp add: d(1) encode_frames_append)
  moreover have "fullBuffer @ v @ concat reads = encode_frames fs1 @ buf' @ concat reads"
    using d(4) by (simp add: buf'_def [symmetric])
  ultimately have rest: "buf' @ concat reads = encode_frames fs2"
    by simp
  have v2: "\<forall>f \<in> set fs2. valid_frame f"
    using Cons.prems(1) by (simp add: d(1))
  have "reassemble buf' reads = Some (fs2, [])"
    using v2 rest _ d(3)
  proof (rule Cons.IH)
    show "buf' = (case fs2 of [] \<Rightarrow> [] | g # _ \<Rightarrow> take k' (framedBody (flags g) (payload g)))"
      by (simp only: buf'_def)
  qed
  then show ?case
    by (simp only: step option.case prod.case d(1))
qed

lemma framedBody_small:
  assumes "length body < 256"
  shows "framedBody fl body = [fl, 0, 0, 0, word_of_nat (length body)] @ body"
proof -
  have "drop_bit 8 (length body) = 0" "drop_bit 16 (length body) = 0" "drop_bit 24 (length body) = 0"
    using assms by (simp_all add: drop_bit_eq_div)
  then show ?thesis
    by (simp add: framedBody_def Let_def)
qed




text \<open>
  Claim C2. For every list of frames with payloads below \<open>2^31\<close> bytes and every way of
  cutting their byte stream into chunks, with cuts inside a five-byte header and with
  empty chunks as well, feeding the chunks to the reassembly one after another yields
  exactly these frames, in order, and leaves nothing in the buffer; feeding the whole stream
  as one chunk yields the same.
\<close>

theorem reassembly_chunk_boundary_independent:
  assumes "\<forall>f \<in> set fs. valid_frame f" and "concat reads = encode_frames fs"
  shows "reassemble [] reads = Some (fs, [])
         \<and> reassemble [] [encode_frames fs] = Some (fs, [])
         \<and> reassemble [] reads = reassemble [] [concat reads]"
proof -
  have pend: "[] = (case fs of [] \<Rightarrow> [] | g # _ \<Rightarrow> take 0 (framedBody (flags g) (payload g)))"
    by (simp split: list.split)
  have k0: "(case fs of [] \<Rightarrow> True | g # _ \<Rightarrow> 0 < length (framedBody (flags g) (payload g)))"
    by (simp add: length_framedBody split: list.split)
  have a: "reassemble [] reads = Some (fs, [])"
    using assms(1) _ pend k0
  proof (rule reassemble_frames)
    show "[] @ concat reads = encode_frames fs" using assms(2) by simp
  qed
  have b: "reassemble [] [encode_frames fs] = Some (fs, [])"
    using assms(1) _ pend k0
  proof (rule reassemble_frames)
    show "[] @ concat [encode_frames fs] = encode_frames fs" by simp
  qed
  have c: "reassemble [] reads = reassemble [] [concat reads]"
    by (simp only: a b assms(2))
  from a b c show ?thesis by (intro conjI)
qed

theorem reassembly_chunk_boundary_independent_witness:
  "reassemble [] [[0, 0, 0, 0, 3, 1, 2], [3, 0x80, 0, 0], [], [0, 1, 9]]
     = Some ([\<lparr>flags = 0, payload = [1, 2, 3]\<rparr>, \<lparr>flags = 0x80, payload = [9]\<rparr>], [])
   \<and> reassemble [] [[0, 0, 0, 0, 3, 1, 2, 3, 0x80, 0, 0, 0, 1, 9]]
     = Some ([\<lparr>flags = 0, payload = [1, 2, 3]\<rparr>, \<lparr>flags = 0x80, payload = [9]\<rparr>], [])"
proof -
  define fs where "fs = [\<lparr>flags = 0, payload = [1, 2, 3]\<rparr>, \<lparr>flags = 0x80, payload = [9]\<rparr>]"
  have e: "encode_frames fs = [0, 0, 0, 0, 3, 1, 2, 3, 0x80, 0, 0, 0, 1, 9]"
    by (simp add: fs_def encode_frames_def framedBody_small)
  have h1: "\<forall>f \<in> set fs. valid_frame f" by (simp add: fs_def valid_frame_def)
  have h2: "concat [[0, 0, 0, 0, 3, 1, 2], [3, 0x80, 0, 0], [], [0, 1, 9]] = encode_frames fs"
    by (simp add: e)
  note t = reassembly_chunk_boundary_independent [OF h1 h2, unfolded e]
  have a: "reassemble [] [[0, 0, 0, 0, 3, 1, 2], [3, 0x80, 0, 0], [], [0, 1, 9]] = Some (fs, [])"
    by (rule t [THEN conjunct1])
  have b: "reassemble [] [[0, 0, 0, 0, 3, 1, 2, 3, 0x80, 0, 0, 0, 1, 9]] = Some (fs, [])"
    by (rule t [THEN conjunct2, THEN conjunct1])
  from a b show ?thesis
    unfolding fs_def by (rule conjI)
qed

section \<open>The read driver\<close>

text \<open>
  The script's read driver runs the same rounds and returns the same frames as long as the
  stream arrives in at most 51 chunks; it leaves its loop after the 51st. Eleven empty
  frames are 55 bytes: read as one chunk they give eleven frames, read byte by byte they
  give the ten frames of the first 51 bytes.
\<close>

lemma read_loop_frames:
  assumes "\<forall>f \<in> set fs. valid_frame f"
    and "fullBuffer @ concat reads = encode_frames fs"
    and "fullBuffer = (case fs of [] \<Rightarrow> [] | g # _ \<Rightarrow> take k (framedBody (flags g) (payload g)))"
    and "(case fs of [] \<Rightarrow> True | g # _ \<Rightarrow> k < length (framedBody (flags g) (payload g)))"
    and "chunks + length reads \<le> 51"
  shows "read_loop reads chunks fullBuffer = Some fs"
  using assms
proof (induction reads arbitrary: fs fullBuffer k chunks)
  case Nil
  from Nil.prems(2) have "fullBuffer = encode_frames fs"
    by simp
  with Nil.prems(3) have "(case fs of [] \<Rightarrow> [] | g # _ \<Rightarrow> take k (framedBody (flags g) (payload g))) = encode_frames fs"
    by (rule subst)
  then have "fs = []" using Nil.prems(4) by (rule pending_is_all)
  moreover have "read_loop [] chunks fullBuffer = Some []"
    by (rule read_loop.simps(1))
  ultimately show ?case by (simp only:)
next
  case (Cons v reads)
  have "(fullBuffer @ v) @ concat reads = encode_frames fs"
    using Cons.prems(2) by simp
  from process_chunk_prefix [OF Cons.prems(1) this]
  obtain fs1 fs2 k' where d: "fs = fs1 @ fs2"
      "process_chunk fullBuffer v
         = Some (fs1, case fs2 of [] \<Rightarrow> [] | g # _ \<Rightarrow> take k' (framedBody (flags g) (payload g)))"
      "(case fs2 of [] \<Rightarrow> True | g # _ \<Rightarrow> k' < length (framedBody (flags g) (payload g)))"
      "fullBuffer @ v = encode_frames fs1 @ (case fs2 of [] \<Rightarrow> [] | g # _ \<Rightarrow> take k' (framedBody (flags g) (payload g)))"
    by (elim exE conjE)
  define buf' where "buf' = (case fs2 of [] \<Rightarrow> [] | g # _ \<Rightarrow> take k' (framedBody (flags g) (payload g)))"
  have pc: "process_chunk fullBuffer v = Some (fs1, buf')"
    using d(2) by (simp only: buf'_def)
  have step: "read_loop (v # reads) chunks fullBuffer
        = (if chunks + 1 > 50 then Some fs1
           else map_option (\<lambda>later. fs1 @ later) (read_loop reads (chunks + 1) buf'))"
    by (simp only: read_loop.simps(2) pc option.case prod.case)
  have "fullBuffer @ v @ concat reads = encode_frames fs1 @ encode_frames fs2"
    using Cons.prems(2) by (simp add: d(1) encode_frames_append)
  moreover have "fullBuffer @ v @ concat reads = encode_frames fs1 @ buf' @ concat reads"
    using d(4) by (simp add: buf'_def [symmetric])
  ultimately have rest: "buf' @ concat reads = encode_frames fs2"
    by simp
  have v2: "\<forall>f \<in> set fs2. valid_frame f"
    using Cons.prems(1) by (simp add: d(1))
  show ?case
  proof (cases "chunks + 1 > 50")
    case True
    have "chunks + (1 + length reads) \<le> 51" using Cons.prems(5) by simp
    with True have "length reads = 0" by linarith
    then have "reads = []" by simp
    with rest have "buf' = encode_frames fs2" by simp
    then have "fs2 = []" unfolding buf'_def using d(3) by (rule pending_is_all)
    then have "fs = fs1" by (simp add: d(1))
    with True show ?thesis by (simp only: step if_True)
  next
    case False
    have "read_loop reads (chunks + 1) buf' = Some fs2"
      using v2 rest _ d(3)
    proof (rule Cons.IH)
      show "buf' = (case fs2 of [] \<Rightarrow> [] | g # _ \<Rightarrow> take k' (framedBody (flags g) (payload g)))"
        by (simp only: buf'_def)
      show "chunks + 1 + length reads \<le> 51"
        using Cons.prems(5) by simp
    qed
    with False show ?thesis
      by (simp only: step if_False option.map d(1))
  qed
qed


lemma read_stream_frames:
  assumes "\<forall>f \<in> set fs. valid_frame f" and "concat reads = encode_frames fs"
    and "length reads \<le> 51"
  shows "read_stream reads = Some fs \<and> read_stream [encode_frames fs] = Some fs"
proof -
  have pend: "[] = (case fs of [] \<Rightarrow> [] | g # _ \<Rightarrow> take 0 (framedBody (flags g) (payload g)))"
    by (simp split: list.split)
  have k0: "(case fs of [] \<Rightarrow> True | g # _ \<Rightarrow> 0 < length (framedBody (flags g) (payload g)))"
    by (simp add: length_framedBody split: list.split)
  have "read_loop reads 0 [] = Some fs"
    using assms(1) _ pend k0
  proof (rule read_loop_frames)
    show "[] @ concat reads = encode_frames fs" using assms(2) by simp
    show "0 + length reads \<le> 51" using assms(3) by simp
  qed
  moreover have "read_loop [encode_frames fs] 0 [] = Some fs"
    using assms(1) _ pend k0
  proof (rule read_loop_frames)
    show "[] @ concat [encode_frames fs] = encode_frames fs" by simp
    show "0 + length [encode_frames fs] \<le> 51" by simp
  qed
  ultimately show ?thesis by (simp add: read_stream_def)
qed

lemma read_stream_stops_after_51_chunks:
  "concat (replicate 55 [0]) = encode_frames (replicate 11 \<lparr>flags = 0, payload = []\<rparr>)
   \<and> read_stream [concat (replicate 55 [0])] = Some (replicate 11 \<lparr>flags = 0, payload = []\<rparr>)
   \<and> read_stream (replicate 55 [0]) = Some (replicate 10 \<lparr>flags = 0, payload = []\<rparr>)
   \<and> read_stream (replicate 55 [0]) \<noteq> read_stream [concat (replicate 55 [0])]"
proof -
  have a: "concat (replicate 55 [0]) = encode_frames (replicate 11 \<lparr>flags = 0, payload = []\<rparr>)"
    by (simp add: encode_frames_def framedBody_small eval_nat_numeral)
  have b: "read_stream [concat (replicate 55 [0])] = Some (replicate 11 \<lparr>flags = 0, payload = []\<rparr>)"
    by code_simp
  have c: "read_stream (replicate 55 [0]) = Some (replicate 10 \<lparr>flags = 0, payload = []\<rparr>)"
    by code_simp
  have "replicate 10 \<lparr>flags = 0::byte, payload = []\<rparr> \<noteq> replicate 11 \<lparr>flags = 0, payload = []\<rparr>"
    by (simp add: replicate_eq_replicate)
  then have d: "read_stream (replicate 55 [0]) \<noteq> read_stream [concat (replicate 55 [0])]"
    unfolding b c by simp
  from a b c d show ?thesis by (intro conjI)
qed

section \<open>Tool invocations\<close>

lemma tool_invocation_kind [simp]:
  "is_tool (tool_invocation k a c)" "\<not> is_text (tool_invocation k a c)"
  "tool_invocation k a c \<noteq> Done" "Done \<noteq> tool_invocation k a c"
  "collect_text (tool_invocation k a c # es) = []"
  by (simp_all add: tool_invocation_def)

text \<open>
  Claim C9. The tool name mapping is a function on every kind of exec request: shell maps
  to bash, read to read, write to write, ls to list, grep with a pattern to grep, grep with
  a glob to glob, an MCP request keeps its original tool name and its arguments, and every
  other kind maps to the name "unknown"; every kind, the unknown ones included, yields a
  tool invocation.
\<close>

theorem tool_name_mapping:
  "tool_name Shell = ''bash''
   \<and> tool_name Read = ''read''
   \<and> tool_name Write = ''write''
   \<and> tool_name Ls = ''list''
   \<and> tool_name (Grep GrepPattern) = ''grep''
   \<and> tool_name (Grep GrepGlob) = ''glob''
   \<and> tool_invocation (Mcp original) arguments callId = ToolInvocation original arguments callId
   \<and> tool_name (UnknownKind raw) = ''unknown''
   \<and> tool_invocation (UnknownKind raw) arguments callId = ToolInvocation ''unknown'' arguments callId
   \<and> is_tool (tool_invocation k arguments callId)"
  by (simp add: tool_name_def tool_invocation_def)

lemma tool_events_in_order:
  "filter is_tool (tool_turn_events seen items)
   = concat (map (\<lambda>i. case i of ExecRequest k a c \<Rightarrow> [tool_invocation k a c] | _ \<Rightarrow> []) items)"
  by (induction seen items rule: tool_turn_events.induct) simp_all

lemma turn_ends_with_Done:
  "\<exists>es. tool_turn_events seen items = es @ [Done] \<and> Done \<notin> set es"
proof (induction seen items rule: tool_turn_events.induct)
  case (1 seen)
  then show ?case by simp
next
  case (2 seen t items)
  show ?case
  proof (cases seen)
    case True
    with 2 show ?thesis by simp
  next
    case False
    with 2 obtain es where es: "tool_turn_events seen items = es @ [Done]" "Done \<notin> set es"
      by blast
    with False have "tool_turn_events seen (TextItem t # items) = (TextDelta t # es) @ [Done]
        \<and> Done \<notin> set (TextDelta t # es)" by simp
    then show ?thesis by blast
  qed
next
  case (3 seen k arguments callId items)
  then obtain es where "tool_turn_events True items = es @ [Done]" "Done \<notin> set es"
    by blast
  then have "tool_turn_events seen (ExecRequest k arguments callId # items)
       = (tool_invocation k arguments callId # es) @ [Done]
     \<and> Done \<notin> set (tool_invocation k arguments callId # es)"
    by auto
  then show ?case by blast
next
  case (4 seen items)
  then show ?case by simp
qed

lemma no_text_once_seen: "filter is_text (tool_turn_events True items) = []"
  by (induction "True" items rule: tool_turn_events.induct) simp_all

lemma no_text_after_tool:
  "filter is_text (dropWhile (\<lambda>e. \<not> is_tool e) (tool_turn_events seen items)) = []"
  by (induction seen items rule: tool_turn_events.induct) (simp_all add: no_text_once_seen)

lemma collect_text_before_tool:
  "collect_text (tool_turn_events False items)
   = concat (map (\<lambda>i. case i of TextItem t \<Rightarrow> t | _ \<Rightarrow> [])
       (takeWhile (\<lambda>i. \<not> is_exec i) items))"
  by (induction "False" items rule: tool_turn_events.induct) simp_all

text \<open>
  Claim C6. For a request that supplies tool definitions, the tool invocations of the turn
  are exactly the exec requests of the backend stream, one each and in their order; the
  events end with \<open>Done\<close>, which occurs nowhere else; from the first tool invocation on
  there is no text delta; and the text a non-streaming caller concatenates is the text that
  came before the first exec request.
\<close>

theorem tool_turn:
  "filter is_tool (submit_with_tools items)
     = concat (map (\<lambda>i. case i of ExecRequest k a c \<Rightarrow> [tool_invocation k a c] | _ \<Rightarrow> []) items)
   \<and> length (filter is_tool (submit_with_tools items)) = length (filter is_exec items)
   \<and> (\<exists>es. submit_with_tools items = es @ [Done] \<and> Done \<notin> set es)
   \<and> filter is_text (dropWhile (\<lambda>e. \<not> is_tool e) (submit_with_tools items)) = []
   \<and> collect_text (submit_with_tools items)
     = concat (map (\<lambda>i. case i of TextItem t \<Rightarrow> t | _ \<Rightarrow> [])
         (takeWhile (\<lambda>i. \<not> is_exec i) items))"
proof -
  have "length (concat (map (\<lambda>i. case i of ExecRequest k a c \<Rightarrow> [tool_invocation k a c] | _ \<Rightarrow> []) items))
        = length (filter is_exec items)"
  proof (induction items)
    case Nil
    then show ?case by simp
  next
    case (Cons i items)
    then show ?case by (cases i) simp_all
  qed
  then show ?thesis
    unfolding submit_with_tools_def
    using tool_events_in_order [of False items] turn_ends_with_Done [of False items]
      no_text_after_tool [of False items] collect_text_before_tool [of items]
    by simp
qed

end
